theory Spec2Isabelle
  imports Complex_Main
begin

section \<open>The round engine of CruiseNeonCrash.tsx\<close>

text \<open>
  The component keeps its round state in React state cells. The cells \<open>phase\<close>, \<open>joined\<close>,
  \<open>hasCashed\<close>, \<open>activeBet\<close> and \<open>collected\<close> are mirrored by refs (\<open>phaseRef\<close>, \<open>joinedRef\<close>,
  \<open>hasCashedRef\<close>, \<open>activeBetRef\<close>, \<open>collectedRef\<close>) that effects copy from the cells after a
  render has been committed, so a ref lags its cell from the handler that sets the cell
  until that commit. The record \<open>game\<close> has a field for each cell and a field for each of
  these refs; a handler writes a ref only where the source writes it (\<open>phaseRef\<close> in
  \<open>startBettingPhase\<close> and at round start), and the event \<open>RenderCommit\<close> runs the mirror
  effects. The player's actions, \<open>startRound\<close> and its completion callback read the refs as
  the source does. The frame callback is modelled on the cells: it resolves a contact
  no earlier than two seconds after a spawn and stops itself at a crash, so the refs it
  reads have been mirrored when it acts. \<open>obstaclesRef\<close> is identified with the cell
  \<open>obstacles\<close>. The values of \<open>bet\<close> and \<open>balance\<close> that \<open>startRound\<close> sees are those of the
  render that opened the betting window; they are kept in \<open>closBet\<close> and \<open>closBalance\<close>.

  JavaScript numbers are modelled by exact reals, \<open>Math.random()\<close>, \<open>performance.now()\<close>,
  the frame timestamp and the fresh obstacle ids are inputs of the step that consumes
  them, and the measured layout (ship bounds, lane width) is a parameter \<open>layout\<close> that is
  not changed while the engine runs.
\<close>

subsection \<open>Types\<close>

datatype Phase = Idle | Betting | Running | Cashed | Crashed | Lifeboat

datatype ObState = ObIdle | ObBreaking

text \<open>
  The type \<open>Obstacle\<close> of the source; its fields \<open>id\<close>, \<open>x\<close>, \<open>width\<close>, \<open>height\<close>,
  \<open>multiplier\<close>, \<open>iceberg\<close>, \<open>state\<close>, \<open>bornAt\<close> carry the prefix \<open>ob_\<close>.
\<close>

record Obstacle =
  ob_id :: string
  ob_x :: real
  ob_width :: real
  ob_height :: real
  ob_multiplier :: real
  ob_iceberg :: bool
  ob_state :: ObState
  ob_bornAt :: real

text \<open>The texts passed to \<open>setMessage\<close>, one constructor per call site.\<close>

datatype Message =
    MsgEmpty
  | MsgPlaceYourBet int
  | MsgInsufficientStart
  | MsgSailOn
  | MsgLifeboat
  | MsgCrashed
  | MsgCashedOut
  | MsgBetCanceled
  | MsgInsufficientBet
  | MsgBetPlaced real

record layout =
  shipLeft :: real
  shipRight :: real
  laneWidth :: real

text \<open>
  The state cells and refs of the component. \<open>betTimers\<close> says that the betting interval
  and timeout are armed, \<open>pendingStart\<close> holds the stake captured by each pending
  completion callback of the un-sink animation in \<open>startRound\<close>, \<open>settleTimers\<close> counts the
  pending 650 ms removals of old ice, and \<open>removalScheduled\<close> is \<open>removalScheduledRef\<close>.
  \<open>activeBetRefCurrent\<close> is \<open>activeBetRef.current\<close>.
\<close>

record game =
  phase :: Phase
  balance :: real
  bet :: real
  message :: Message
  countdown :: int
  collected :: real
  safeHits :: nat
  obstacles :: "Obstacle list"
  activeBet :: "real option"
  hasCashed :: bool
  joined :: bool
  speed :: real
  spawnAccum :: real
  nextIndex :: nat
  plannedMult :: real
  scroll :: real
  lastTs :: "real option"
  removalScheduled :: "string set"
  betTimers :: bool
  pendingStart :: "real list"
  settleTimers :: nat
  started :: bool
  phaseRef :: Phase
  joinedRef :: bool
  hasCashedRef :: bool
  collectedRef :: real
  activeBetRefCurrent :: real
  closBet :: real
  closBalance :: real

definition init :: game where
  "init = \<lparr> phase = Idle, balance = 1000, bet = 10, message = MsgEmpty, countdown = 0,
     collected = 1, safeHits = 0, obstacles = [], activeBet = None, hasCashed = False,
     joined = False, speed = 320, spawnAccum = 0, nextIndex = 1, plannedMult = 1,
     scroll = 0, lastTs = None, removalScheduled = {}, betTimers = False,
     pendingStart = [], settleTimers = 0, started = False, phaseRef = Idle,
     joinedRef = False, hasCashedRef = False, collectedRef = 1, activeBetRefCurrent = 0,
     closBet = 10, closBalance = 1000 \<rparr>"

subsection \<open>Constants and helpers\<close>

definition HIT_INTERVAL :: real where "HIT_INTERVAL = 2"
definition SPEED_MULTIPLIER :: real where "SPEED_MULTIPLIER = 3 / 2"
definition SHIP_LEFT_PAD :: real where "SHIP_LEFT_PAD = 0"
definition SHIP_RIGHT_PAD :: real where "SHIP_RIGHT_PAD = 0"
definition ICE_LEFT_PAD :: real where "ICE_LEFT_PAD = 50"
definition ICE_RIGHT_PAD :: real where "ICE_RIGHT_PAD = 0"

text \<open>\<open>rand(min, max)\<close>, with the value \<open>r\<close> of \<open>Math.random()\<close> as an argument.\<close>

definition rand :: "real \<Rightarrow> real \<Rightarrow> real \<Rightarrow> real" where
  "rand mn mx r = r * (mx - mn) + mn"

definition clamp :: "real \<Rightarrow> real \<Rightarrow> real \<Rightarrow> real" where
  "clamp n a b = max a (min b n)"

text \<open>
  \<open>parseFloat(v.toFixed(2))\<close>: the nearest multiple of 0.01, a tie going to the larger
  magnitude.
\<close>

definition toFixed2 :: "real \<Rightarrow> real" where
  "toFixed2 v = (if v < 0 then - (of_int \<lfloor>- v * 100 + 1 / 2\<rfloor> / 100)
                 else of_int \<lfloor>v * 100 + 1 / 2\<rfloor> / 100)"

definition icebergChance :: real where
  "icebergChance = 2 / 5"

text \<open>
  The value \<open>activeBet ?? 0\<close> that the mirror effect writes into \<open>activeBetRef.current\<close>.
\<close>

definition activeBetRef :: "game \<Rightarrow> real" where
  "activeBetRef s = (case activeBet s of None \<Rightarrow> 0 | Some v \<Rightarrow> v)"

subsection \<open>Multiplier sequencer\<close>

text \<open>The value \<open>next\<close> that \<open>planNextMultiplier\<close> computes, \<open>r\<close> being its one random draw.\<close>

definition planValue :: "real \<Rightarrow> nat \<Rightarrow> real \<Rightarrow> real" where
  "planValue r idx planned =
     (if idx = 1 then toFixed2 (rand (11 / 10) (13 / 10) r)
      else if 2 \<le> idx \<and> idx \<le> 5 then
        (let inc = rand (5 / 100) (3 / 10) r;
             nxt = min (21 / 10) (planned + inc);
             nxt = (if nxt \<le> planned then min (21 / 10) (planned + 5 / 100) else nxt)
         in toFixed2 nxt)
      else
        (let inc = toFixed2 (rand 1 3 r)
         in toFixed2 (planned + inc)))"

definition planNextMultiplier :: "real \<Rightarrow> game \<Rightarrow> real \<times> game" where
  "planNextMultiplier r s =
     (let idx = nextIndex s;
          nxt = planValue r idx (plannedMult s)
      in (nxt, s\<lparr>plannedMult := nxt, nextIndex := idx + 1\<rparr>))"

subsection \<open>Kinematics\<close>

definition spawnWorldXFor :: "game \<Rightarrow> real \<Rightarrow> real \<Rightarrow> real \<Rightarrow> real" where
  "spawnWorldXFor s k shipRightNow currentScroll =
     shipRightNow - ICE_LEFT_PAD + currentScroll + speed s * (k * HIT_INTERVAL)"

definition mkObstacle :: "string \<Rightarrow> real \<Rightarrow> real \<Rightarrow> bool \<Rightarrow> real \<Rightarrow> Obstacle" where
  "mkObstacle i wx m ice born =
     \<lparr> ob_id = i, ob_x = wx, ob_width = 220, ob_height = 110, ob_multiplier = m,
       ob_iceberg = ice, ob_state = ObIdle, ob_bornAt = born \<rparr>"

text \<open>The overlap test and the grace window of the collision loop.\<close>

definition contact :: "layout \<Rightarrow> real \<Rightarrow> Obstacle \<Rightarrow> bool" where
  "contact L sc ob =
     (let shipLeftNow = shipLeft L + SHIP_LEFT_PAD;
          shipRightNow = shipRight L + SHIP_RIGHT_PAD;
          screenLeft = (ob_x ob - sc) + ICE_LEFT_PAD;
          screenRight = (ob_x ob - sc) + ob_width ob - ICE_RIGHT_PAD
      in screenLeft \<le> shipRightNow \<and> screenRight \<ge> shipLeftNow)"

definition fresh :: "real \<Rightarrow> Obstacle \<Rightarrow> bool" where
  "fresh ts ob = (ts - ob_bornAt ob < 250)"

definition idleCount :: "Obstacle list \<Rightarrow> nat" where
  "idleCount obs = length (filter (\<lambda>ob. ob_state ob = ObIdle) obs)"

subsection \<open>Betting window and round start\<close>

definition clearBettingTimers :: "game \<Rightarrow> game" where
  "clearBettingTimers s = s\<lparr>betTimers := False\<rparr>"

definition startBettingPhase :: "game \<Rightarrow> game" where
  "startBettingPhase s =
     (clearBettingTimers s)\<lparr>phase := Betting, phaseRef := Betting, hasCashed := False,
        joined := False, activeBet := None, countdown := 5, message := MsgPlaceYourBet 5,
        betTimers := True\<rparr>"

text \<open>
  \<open>startBettingPhase\<close> called by an effect: the timeout it arms runs the \<open>startRound\<close> of the
  effect's render, which sees that render's \<open>bet\<close> and \<open>balance\<close>.
\<close>

definition openBetting :: "game \<Rightarrow> game" where
  "openBetting s = startBettingPhase (s\<lparr>closBet := bet s, closBalance := balance s\<rparr>)"

text \<open>The effects that mirror a cell into its ref once a render is committed.\<close>

definition mirrorEffects :: "game \<Rightarrow> game" where
  "mirrorEffects s =
     s\<lparr>activeBetRefCurrent := activeBetRef s, hasCashedRef := hasCashed s,
       joinedRef := joined s, phaseRef := phase s, collectedRef := collected s\<rparr>"

text \<open>The callback of the one-second interval armed by \<open>startBettingPhase\<close>.\<close>

definition countdownTick :: "game \<Rightarrow> game" where
  "countdownTick s =
     (if betTimers s then
        (let n = max 0 (countdown s - 1) in s\<lparr>message := MsgPlaceYourBet n, countdown := n\<rparr>)
      else s)"

text \<open>
  \<open>startRound\<close> up to the point where it starts the un-sink animation; the stake it has
  computed is captured by the completion callback, which is \<open>beginRound\<close> below. Its
  \<open>balance\<close> and \<open>bet\<close> are \<open>closBalance\<close> and \<open>closBet\<close>; the call of \<open>startBettingPhase\<close> in it
  belongs to the same render and keeps them.
\<close>

definition startRound :: "game \<Rightarrow> game" where
  "startRound s =
     (let minStake = 1 in
      if closBalance s < minStake
      then startBettingPhase (s\<lparr>message := MsgInsufficientStart\<rparr>)
      else
        let stake = clamp (closBet s) minStake (closBalance s);
            stake = (if joinedRef s \<and> activeBetRefCurrent s > 0
                     then clamp (activeBetRefCurrent s) minStake (closBalance s) else stake)
        in if phaseRef s = Running then s
           else (clearBettingTimers s)\<lparr>
                  obstacles := map (\<lambda>ob. ob\<lparr>ob_state := ObBreaking\<rparr>) (obstacles s),
                  settleTimers := settleTimers s + 1,
                  pendingStart := pendingStart s @ [stake]\<rparr>)"

text \<open>The 650 ms timer of \<open>startRound\<close> that drops the ice marked as breaking.\<close>

definition settleOld :: "game \<Rightarrow> game" where
  "settleOld s =
     (if 0 < settleTimers s then
        s\<lparr>obstacles := filter (\<lambda>ob. ob_state ob \<noteq> ObBreaking) (obstacles s),
          settleTimers := settleTimers s - 1\<rparr>
      else s)"

text \<open>The environment of the completion callback: its random draws, ids and clock readings.\<close>

record start_env =
  s_mult1 :: real
  s_mult2 :: real
  s_ice1 :: real
  s_ice2 :: real
  s_id1 :: string
  s_id2 :: string
  s_now1 :: real
  s_now2 :: real

definition beginRound :: "layout \<Rightarrow> start_env \<Rightarrow> real \<Rightarrow> game \<Rightarrow> game" where
  "beginRound L e stake s =
     (let s1 = s\<lparr>phase := Running, phaseRef := Running, hasCashed := False,
                  collected := 1, safeHits := 0\<rparr>;
          s2 = (if joinedRef s1
                then s1\<lparr>activeBet := Some stake, bet := stake, balance := balance s1 - stake\<rparr>
                else s1\<lparr>activeBet := None\<rparr>);
          s3 = s2\<lparr>message := MsgSailOn, nextIndex := 1, plannedMult := 1, scroll := 0\<rparr>;
          s4 = s3\<lparr>speed := max 60 ((laneWidth L - 12 - shipRight L) / 4) * SPEED_MULTIPLIER\<rparr>;
          baseX1 = spawnWorldXFor s4 1 (shipRight L) (scroll s4);
          baseX2 = spawnWorldXFor s4 2 (shipRight L) (scroll s4);
          (m1, s5) = planNextMultiplier (s_mult1 e) s4;
          (m2, s6) = planNextMultiplier (s_mult2 e) s5
      in s6\<lparr>obstacles :=
              [mkObstacle (s_id1 e) baseX1 m1 (s_ice1 e < icebergChance) (s_now1 e),
               mkObstacle (s_id2 e) baseX2 m2 (s_ice2 e < icebergChance) (s_now2 e)],
            lastTs := None, spawnAccum := 0\<rparr>)"

definition animDone :: "layout \<Rightarrow> start_env \<Rightarrow> game \<Rightarrow> game" where
  "animDone L e s =
     (case pendingStart s of
        [] \<Rightarrow> s
      | stake # rest \<Rightarrow> beginRound L e stake (s\<lparr>pendingStart := rest\<rparr>))"

subsection \<open>The frame callback\<close>

record tick_env =
  t_ts :: real
  t_life :: real
  t_mult :: real
  t_ice :: real
  t_id :: string

definition frameDt :: "real \<Rightarrow> game \<Rightarrow> real" where
  "frameDt ts s =
     (let lst = (case lastTs s of None \<Rightarrow> ts | Some l \<Rightarrow> l)
      in min (5 / 100) ((ts - lst) / 1000))"

definition advance :: "real \<Rightarrow> game \<Rightarrow> game" where
  "advance ts s =
     (let dt = frameDt ts s
      in s\<lparr>lastTs := Some ts, spawnAccum := spawnAccum s + dt,
           scroll := scroll s + speed s * dt\<rparr>)"

datatype Hit = NoHit | CrashHit | SafeHit Obstacle

text \<open>
  The collision loop: it stops at the first idle obstacle that is out of its grace window
  and overlaps the ship, and reports an iceberg or a safe hit.
\<close>

fun collide :: "layout \<Rightarrow> real \<Rightarrow> real \<Rightarrow> Obstacle list \<Rightarrow> Hit" where
  "collide L ts sc [] = NoHit"
| "collide L ts sc (ob # rest) =
     (if ob_state ob \<noteq> ObIdle then collide L ts sc rest
      else if \<not> fresh ts ob \<and> contact L sc ob then
        (if ob_iceberg ob then CrashHit else SafeHit ob)
      else collide L ts sc rest)"

record locals =
  updated :: "Obstacle list"
  needCommit :: bool
  spawnedThisFrame :: bool

definition markBreaking :: "Obstacle \<Rightarrow> Obstacle list \<Rightarrow> Obstacle list" where
  "markBreaking ob prev =
     map (\<lambda>p. if ob_id p = ob_id ob then p\<lparr>ob_state := ObBreaking\<rparr> else p) prev"

definition safeHitEffects :: "Obstacle \<Rightarrow> game \<Rightarrow> game" where
  "safeHitEffects ob s = s\<lparr>collected := ob_multiplier ob, safeHits := safeHits s + 1\<rparr>"

definition crashOutcome :: "real \<Rightarrow> game \<Rightarrow> game" where
  "crashOutcome r s =
     (if r < 5 / 100 then
        (let s1 = s\<lparr>phase := Lifeboat\<rparr>;
             s2 = (if \<not> hasCashed s1
                   then (let payout = activeBetRef s1 * collected s1
                         in s1\<lparr>balance := balance s1 + payout\<rparr>)
                   else s1)
         in s2\<lparr>message := MsgLifeboat\<rparr>)
      else s\<lparr>phase := Crashed, message := MsgCrashed\<rparr>)"

definition spawnInto :: "layout \<Rightarrow> tick_env \<Rightarrow> locals \<times> game \<Rightarrow> locals \<times> game" where
  "spawnInto L e ls =
     (let (loc, s) = ls;
          (m, s1) = planNextMultiplier (t_mult e) s;
          wx = spawnWorldXFor s1 2 (shipRight L) (scroll s1)
      in (loc\<lparr>updated := updated loc @
                 [mkObstacle (t_id e) wx m (t_ice e < icebergChance) (t_ts e)],
              spawnedThisFrame := True, needCommit := True\<rparr>, s1))"

text \<open>Step 3a: the immediate replacement after a safe hit.\<close>

definition replacementSpawn ::
  "layout \<Rightarrow> tick_env \<Rightarrow> bool \<Rightarrow> locals \<times> game \<Rightarrow> locals \<times> game" where
  "replacementSpawn L e safeHitThisFrame ls =
     (if safeHitThisFrame \<and> idleCount (updated (fst ls)) < 2 then
        (let (loc, s1) = spawnInto L e ls in (loc, s1\<lparr>spawnAccum := 0\<rparr>))
      else ls)"

text \<open>
  Step 3b: the \<open>while\<close> loop of the cadence spawns, with its counter \<open>idleNow\<close>. Its body sets
  \<open>spawnedThisFrame\<close>, so it is entered at most once and one set of draws serves it.
\<close>

function cadenceSpawns ::
  "layout \<Rightarrow> tick_env \<Rightarrow> nat \<Rightarrow> locals \<times> game \<Rightarrow> locals \<times> game" where
  "cadenceSpawns L e idleNow ls =
     (if \<not> spawnedThisFrame (fst ls) \<and> spawnAccum (snd ls) \<ge> HIT_INTERVAL \<and> idleNow < 2 then
        cadenceSpawns L e (idleNow + 1)
          (fst (spawnInto L e ls),
           (snd (spawnInto L e ls))\<lparr>spawnAccum := spawnAccum (snd (spawnInto L e ls)) - HIT_INTERVAL\<rparr>)
      else ls)"
  by pat_completeness auto
termination
  by (relation "measure (\<lambda>(L, e, n, ls). if spawnedThisFrame (fst ls) then 0 else 1)")
     (auto simp: spawnInto_def split: prod.splits)

text \<open>Step 4: the ids of breaking ice whose removal timer is armed by this frame.\<close>

definition scheduleRemovals :: "locals \<times> game \<Rightarrow> locals \<times> game" where
  "scheduleRemovals ls =
     (fst ls, (snd ls)\<lparr>removalScheduled := removalScheduled (snd ls) \<union>
        ob_id ` set (filter (\<lambda>ob. ob_state ob = ObBreaking) (updated (fst ls)))\<rparr>)"

text \<open>Step 5: the off-screen cull.\<close>

definition onScreen :: "real \<Rightarrow> Obstacle \<Rightarrow> bool" where
  "onScreen sc ob = ((ob_x ob - sc) + ob_width ob > - 40)"

definition cull :: "locals \<times> game \<Rightarrow> locals \<times> game" where
  "cull ls =
     (let (loc, s) = ls;
          culled = filter (onScreen (scroll s)) (updated loc)
      in if length culled \<noteq> length (updated loc)
         then (loc\<lparr>updated := culled, needCommit := True\<rparr>, s)
         else (loc, s))"

definition commit :: "locals \<times> game \<Rightarrow> game" where
  "commit ls = (if needCommit (fst ls) then (snd ls)\<lparr>obstacles := updated (fst ls)\<rparr> else snd ls)"

definition loop :: "layout \<Rightarrow> tick_env \<Rightarrow> game \<Rightarrow> game" where
  "loop L e s0 =
     (if phase s0 \<noteq> Running then s0
      else
        let ts = t_ts e;
            s = advance ts s0;
            prev = obstacles s;
            noChange = \<lparr>updated = prev, needCommit = False, spawnedThisFrame = False\<rparr>
        in case collide L ts (scroll s) prev of
             CrashHit \<Rightarrow> commit (noChange, crashOutcome (t_life e) s)
           | NoHit \<Rightarrow>
               commit (cull (scheduleRemovals
                 (cadenceSpawns L e (idleCount prev)
                   (replacementSpawn L e False (noChange, s)))))
           | SafeHit ob \<Rightarrow>
               (let ls1 = replacementSpawn L e True
                            (\<lparr>updated = markBreaking ob prev, needCommit = True,
                              spawnedThisFrame = False\<rparr>, safeHitEffects ob s)
                in commit (cull (scheduleRemovals
                     (cadenceSpawns L e (idleCount (updated (fst ls1))) ls1)))))"

text \<open>The timer that removes one breaking obstacle 950 ms after the frame that armed it.\<close>

definition removalTimer :: "string \<Rightarrow> game \<Rightarrow> game" where
  "removalTimer i s =
     (if i \<in> removalScheduled s then
        s\<lparr>obstacles := filter (\<lambda>k. ob_id k \<noteq> i) (obstacles s),
          removalScheduled := removalScheduled s - {i}\<rparr>
      else s)"

subsection \<open>Player actions\<close>

text \<open>
  \<open>cashOutNow\<close> tests \<open>phaseRef.current\<close>, \<open>joinedRef.current\<close> and \<open>hasCashedRef.current\<close> and pays
  \<open>activeBetRef.current * collectedRef.current\<close>; it sets the cell \<open>hasCashed\<close> and leaves the
  ref to the mirror effect.
\<close>

definition cashOutNow :: "game \<Rightarrow> game" where
  "cashOutNow s =
     (if phaseRef s \<noteq> Running then s
      else if \<not> joinedRef s then s
      else if hasCashedRef s then s
      else (let payout = activeBetRefCurrent s * collectedRef s
            in s\<lparr>balance := balance s + payout, hasCashed := True, message := MsgCashedOut\<rparr>))"

definition cancelBet :: "game \<Rightarrow> game" where
  "cancelBet s =
     (if phaseRef s \<noteq> Betting then s
      else if \<not> joinedRef s then s
      else s\<lparr>joined := False, activeBet := None, message := MsgBetCanceled\<rparr>)"

definition placeBet :: "game \<Rightarrow> game" where
  "placeBet s =
     (if phaseRef s \<noteq> Betting then s
      else
        let stake = clamp (bet s) 1 (balance s)
        in if stake < 1 then s\<lparr>message := MsgInsufficientBet\<rparr>
           else s\<lparr>joined := True, activeBet := Some stake, bet := stake,
                  message := MsgBetPlaced stake\<rparr>)"

text \<open>
  The bet input and its two buttons; all three are disabled unless the phase is betting
  and the player has not joined.
\<close>

definition betEditable :: "game \<Rightarrow> bool" where
  "betEditable s = (phase s = Betting \<and> \<not> joined s)"

definition setBetInput :: "real \<Rightarrow> game \<Rightarrow> game" where
  "setBetInput v s = (if betEditable s then s\<lparr>bet := clamp v 1 (balance s)\<rparr> else s)"

definition doubleBet :: "game \<Rightarrow> game" where
  "doubleBet s = (if betEditable s then s\<lparr>bet := clamp (bet s * 2) 1 (balance s)\<rparr> else s)"

definition halveBet :: "game \<Rightarrow> game" where
  "halveBet s = (if betEditable s then s\<lparr>bet := max 1 (of_int \<lfloor>bet s / 2\<rfloor>)\<rparr> else s)"

subsection \<open>The engine as a transition system\<close>

text \<open>
  One event per handler of the component: the readiness effects, the effect on \<open>phase\<close>,
  the betting interval and timeout, the two removal timers, the completion of the un-sink
  animation, the animation frame, the player's controls, and the commit of a render
  with its mirror effects.
\<close>

datatype event =
    Ready
  | PhaseEffect
  | CountdownTick
  | BetTimeout
  | SettleTimer
  | AnimDone start_env
  | Frame tick_env
  | CashOut
  | PlaceBet
  | CancelBet
  | SetBet real
  | DoubleBet
  | HalveBet
  | RemovalTimer string
  | RenderCommit

fun step :: "layout \<Rightarrow> event \<Rightarrow> game \<Rightarrow> game" where
  "step L Ready s =
     (if \<not> started s \<and> phaseRef s = Idle then openBetting (s\<lparr>started := True\<rparr>) else s)"
| "step L PhaseEffect s =
     (if phase s = Crashed \<or> phase s = Lifeboat then openBetting s else s)"
| "step L CountdownTick s = countdownTick s"
| "step L BetTimeout s = (if betTimers s then startRound (clearBettingTimers s) else s)"
| "step L SettleTimer s = settleOld s"
| "step L (AnimDone e) s = animDone L e s"
| "step L (Frame e) s = loop L e s"
| "step L CashOut s = cashOutNow s"
| "step L PlaceBet s = placeBet s"
| "step L CancelBet s = cancelBet s"
| "step L (SetBet v) s = setBetInput v s"
| "step L DoubleBet s = doubleBet s"
| "step L HalveBet s = halveBet s"
| "step L (RemovalTimer i) s = removalTimer i s"
| "step L RenderCommit s = mirrorEffects s"

fun run :: "layout \<Rightarrow> event list \<Rightarrow> game \<Rightarrow> game" where
  "run L [] s = s"
| "run L (e # es) s = run L es (step L e s)"

text \<open>
  What the environment guarantees about a step: \<open>Math.random()\<close> lies in \<open>[0, 1)\<close>, a clock
  reading is not earlier than the readings taken before it, and the betting timeout and
  the completion callback, which fire seconds and at least a frame after the handler
  before them, find \<open>joinedRef\<close> and \<open>activeBetRef\<close> mirrored.
\<close>

definition unit_draw :: "real \<Rightarrow> bool" where
  "unit_draw r = (0 \<le> r \<and> r < 1)"

definition betMirrored :: "game \<Rightarrow> bool" where
  "betMirrored s = (joinedRef s = joined s \<and> activeBetRefCurrent s = activeBetRef s)"

fun wf_event :: "game \<Rightarrow> event \<Rightarrow> bool" where
  "wf_event s (Frame e) =
     (unit_draw (t_life e) \<and> unit_draw (t_mult e) \<and> unit_draw (t_ice e) \<and>
      (case lastTs s of None \<Rightarrow> True | Some l \<Rightarrow> l \<le> t_ts e) \<and>
      list_all (\<lambda>ob. ob_bornAt ob \<le> t_ts e) (obstacles s))"
| "wf_event s (AnimDone e) =
     (unit_draw (s_mult1 e) \<and> unit_draw (s_mult2 e) \<and> unit_draw (s_ice1 e) \<and>
      unit_draw (s_ice2 e) \<and> s_now1 e \<le> s_now2 e \<and> betMirrored s)"
| "wf_event s BetTimeout = betMirrored s"
| "wf_event s _ = True"

fun wf_trace :: "layout \<Rightarrow> game \<Rightarrow> event list \<Rightarrow> bool" where
  "wf_trace L s [] = True"
| "wf_trace L s (e # es) = (wf_event s e \<and> wf_trace L (step L e s) es)"

subsection \<open>Summaries used in the proofs\<close>

text \<open>
  The obstacle that a frame spawns in state \<open>s\<close>, and the combined effect of steps 3a to 5
  and the commit on a frame whose collision loop left the list \<open>U0\<close> (\<open>b\<close> says whether
  it resolved a safe hit). Lemma \<open>loop_char\<close> proves that \<open>loop\<close> computes exactly this.
\<close>

definition newOb :: "layout \<Rightarrow> tick_env \<Rightarrow> game \<Rightarrow> Obstacle" where
  "newOb L e s =
     mkObstacle (t_id e) (spawnWorldXFor s 2 (shipRight L) (scroll s))
       (planValue (t_mult e) (nextIndex s) (plannedMult s)) (t_ice e < icebergChance) (t_ts e)"

definition spawnsNow :: "bool \<Rightarrow> Obstacle list \<Rightarrow> game \<Rightarrow> bool" where
  "spawnsNow b U0 s =
     (if b then idleCount U0 < 2 else (HIT_INTERVAL \<le> spawnAccum s \<and> idleCount U0 < 2))"

definition frameTail :: "layout \<Rightarrow> tick_env \<Rightarrow> bool \<Rightarrow> Obstacle list \<Rightarrow> game \<Rightarrow> game" where
  "frameTail L e b U0 s =
     (let sp = spawnsNow b U0 s;
          U = U0 @ (if sp then [newOb L e s] else [])
      in s\<lparr>obstacles := filter (onScreen (scroll s)) U,
           removalScheduled := removalScheduled s \<union>
             ob_id ` set (filter (\<lambda>ob. ob_state ob = ObBreaking) U0),
           nextIndex := (if sp then nextIndex s + 1 else nextIndex s),
           plannedMult := (if sp then planValue (t_mult e) (nextIndex s) (plannedMult s)
                           else plannedMult s),
           spawnAccum := (if sp then (if b then 0 else spawnAccum s - HIT_INTERVAL)
                          else spawnAccum s)\<rparr>)"

subsection \<open>A concrete round\<close>

text \<open>
  The default layout of the component, and a round in which the player bets 10, the first
  ice is safe and the second is an iceberg. Frames arrive every 50 ms, and a render is
  committed after each handler of \<open>warmup\<close> and after the safe hit. \<open>preHit\<close> is the state
  one frame before the safe ice is reached, \<open>preCrash\<close> the state one frame before the
  iceberg is reached, with every ref mirrored, and \<open>broke\<close> a betting window entered with
  an empty balance.
\<close>

definition L0 :: layout where
  "L0 = \<lparr>shipLeft = 10, shipRight = 150, laneWidth = 980\<rparr>"

definition startEnv0 :: start_env where
  "startEnv0 = \<lparr>s_mult1 = 1 / 2, s_mult2 = 1 / 2, s_ice1 = 1 / 2, s_ice2 = 1 / 10,
     s_id1 = ''a'', s_id2 = ''b'', s_now1 = 0, s_now2 = 0\<rparr>"

definition tickEnv :: "real \<Rightarrow> tick_env" where
  "tickEnv ts = \<lparr>t_ts = ts, t_life = 1 / 2, t_mult = 1 / 2, t_ice = 1 / 2, t_id = ''c''\<rparr>"

definition warmup :: "event list" where
  "warmup = [Ready, RenderCommit, PlaceBet, RenderCommit, BetTimeout, AnimDone startEnv0,
     RenderCommit]"

definition frames :: "nat \<Rightarrow> nat \<Rightarrow> event list" where
  "frames a b = map (\<lambda>k. Frame (tickEnv (50 * real k))) [a..<b]"

definition roundTrace :: "event list" where
  "roundTrace = warmup @ frames 0 41 @ [RenderCommit] @ frames 41 80"

definition preCrash :: game where
  "preCrash = \<lparr>phase = Running, balance = 990, bet = 10, message = MsgSailOn,
    countdown = 5, collected = 6 / 5, safeHits = 1,
    obstacles =
      [\<lparr>ob_id = ''b'', ob_x = 1327, ob_width = 220, ob_height = 110,
          ob_multiplier = 69 / 50, ob_iceberg = True, ob_state = ObIdle,
          ob_bornAt = 0\<rparr>,
       \<lparr>ob_id = ''c'', ob_x = 3881 / 2, ob_width = 220, ob_height = 110,
          ob_multiplier = 39 / 25, ob_iceberg = False, ob_state = ObIdle,
          ob_bornAt = 2000\<rparr>],
    activeBet = Some 10, hasCashed = False, joined = True, speed = 1227 / 4,
    spawnAccum = 39 / 20, nextIndex = 4, plannedMult = 39 / 25,
    scroll = 96933 / 80, lastTs = Some 3950, removalScheduled = {''a''},
    betTimers = False, pendingStart = [], settleTimers = 1, started = True,
    phaseRef = Running, joinedRef = True, hasCashedRef = False, collectedRef = 6 / 5,
    activeBetRefCurrent = 10, closBet = 10, closBalance = 1000\<rparr>"

definition luckyTick :: tick_env where
  "luckyTick = \<lparr>t_ts = 4000, t_life = 1 / 100, t_mult = 1 / 2, t_ice = 1 / 2, t_id = ''d''\<rparr>"

definition broke :: game where
  "broke = init\<lparr>phase := Betting, balance := 0, bet := 1000, betTimers := True, started := True,
     phaseRef := Betting, closBet := 1000, closBalance := 0\<rparr>"

text \<open>
  The multipliers planned by successive calls of \<open>planNextMultiplier\<close>, one draw per call.
\<close>

fun planMany :: "real list \<Rightarrow> game \<Rightarrow> real list" where
  "planMany [] s = []"
| "planMany (r # rs) s = (case planNextMultiplier r s of (v, s') \<Rightarrow> v # planMany rs s')"

text \<open>A number with at most two decimals is one that \<open>toFixed(2)\<close> leaves unchanged.\<close>

definition twoDecimals :: "real \<Rightarrow> bool" where
  "twoDecimals v = (toFixed2 v = v)"

text \<open>Draws that drive the sequence into the cap of 2.10 at the fourth call.\<close>

definition cappedDraws :: "real list" where
  "cappedDraws = [99 / 100, 99 / 100, 99 / 100, 99 / 100, 99 / 100, 0, 1 / 2]"

text \<open>
  The sequencer and the multipliers in play: the planned value is at least 1, has two
  decimals after the first call and is capped while the early rule applies; the collected
  multiplier, its ref and every obstacle's multiplier are at least 1.
\<close>

definition seqInv :: "game \<Rightarrow> bool" where
  "seqInv s =
     (1 \<le> nextIndex s \<and> 1 \<le> plannedMult s \<and>
      (nextIndex s = 1 \<longrightarrow> plannedMult s \<le> 11 / 10) \<and>
      (2 \<le> nextIndex s \<longrightarrow> twoDecimals (plannedMult s)) \<and>
      (2 \<le> nextIndex s \<and> nextIndex s \<le> 5 \<longrightarrow> plannedMult s \<le> 21 / 10) \<and>
      1 \<le> collected s \<and> 1 \<le> collectedRef s \<and>
      list_all (\<lambda>ob. 1 \<le> ob_multiplier ob) (obstacles s))"

text \<open>
  The ledger and the timers: the balance is not negative; at most one round start is
  pending, its stake lies between 1 and the balance, and it implies the betting phase
  with the betting timers cleared; armed betting timers imply the betting phase and a
  captured balance that the balance has not fallen below; a locked stake is at least 1;
  and while \<open>phaseRef\<close> says running, \<open>joinedRef\<close> agrees with \<open>joined\<close>, which holds exactly
  when a stake is locked.
\<close>

definition ledgerInv :: "game \<Rightarrow> bool" where
  "ledgerInv s =
     (0 \<le> balance s \<and>
      list_all (\<lambda>stake. 1 \<le> stake \<and> stake \<le> balance s) (pendingStart s) \<and>
      length (pendingStart s) \<le> 1 \<and>
      (pendingStart s \<noteq> [] \<longrightarrow> phase s = Betting \<and> \<not> betTimers s) \<and>
      (betTimers s \<longrightarrow> phase s = Betting \<and> closBalance s \<le> balance s) \<and>
      (case activeBet s of None \<Rightarrow> True | Some v \<Rightarrow> 1 \<le> v) \<and>
      0 \<le> activeBetRefCurrent s \<and>
      (phase s = Betting \<longrightarrow> phaseRef s = Betting) \<and>
      (phase s = Running \<longrightarrow> phaseRef s = Running) \<and>
      (phaseRef s = Running \<longrightarrow>
         (phase s = Running \<or> phase s = Crashed \<or> phase s = Lifeboat) \<and>
         joinedRef s = joined s \<and> (joined s \<longleftrightarrow> activeBet s \<noteq> None)))"

definition betPlaced :: "event list" where
  "betPlaced = [Ready, RenderCommit, PlaceBet, RenderCommit, BetTimeout]"



definition preHit :: game where
  "preHit = \<lparr>phase = Running, balance = 990, bet = 10, message = MsgSailOn,
    countdown = 5, collected = 1, safeHits = 0,
    obstacles =
      [\<lparr>ob_id = ''a'', ob_x = 1427 / 2, ob_width = 220, ob_height = 110,
          ob_multiplier = 6 / 5, ob_iceberg = False, ob_state = ObIdle,
          ob_bornAt = 0\<rparr>,
       \<lparr>ob_id = ''b'', ob_x = 1327, ob_width = 220, ob_height = 110,
          ob_multiplier = 69 / 50, ob_iceberg = True, ob_state = ObIdle,
          ob_bornAt = 0\<rparr>],
    activeBet = Some 10, hasCashed = False, joined = True, speed = 1227 / 4,
    spawnAccum = 39 / 20, nextIndex = 3, plannedMult = 69 / 50,
    scroll = 47853 / 80, lastTs = Some 1950, removalScheduled = {},
    betTimers = False, pendingStart = [], settleTimers = 1, started = True,
    phaseRef = Running, joinedRef = True, hasCashedRef = False, collectedRef = 1,
    activeBetRefCurrent = 10, closBet = 10, closBalance = 1000\<rparr>"

text \<open>
  The order of the obstacles in play. An obstacle has \<open>passed\<close> the ship when its right
  edge is left of the ship's hitbox; \<open>inOrder\<close> compares two obstacles by position, time of
  birth and multiplier; an obstacle is \<open>ahead\<close> when it is not idle, or carries at least
  the collected multiplier, or has passed. \<open>orderInv\<close> says that the speed is not negative,
  that no multiplier in play exceeds the planned one, that no obstacle lies beyond the
  spawn point of the current frame, that the list is in order and that every obstacle
  is ahead.
\<close>

definition passed :: "layout \<Rightarrow> real \<Rightarrow> Obstacle \<Rightarrow> bool" where
  "passed L sc ob = ((ob_x ob - sc) + ob_width ob - ICE_RIGHT_PAD < shipLeft L + SHIP_LEFT_PAD)"

definition inOrder :: "Obstacle \<Rightarrow> Obstacle \<Rightarrow> bool" where
  "inOrder a b =
     (ob_x a \<le> ob_x b \<and> ob_bornAt a \<le> ob_bornAt b \<and> ob_multiplier a \<le> ob_multiplier b)"

definition ahead :: "layout \<Rightarrow> game \<Rightarrow> Obstacle \<Rightarrow> bool" where
  "ahead L s ob =
     (ob_state ob \<noteq> ObIdle \<or> collected s \<le> ob_multiplier ob \<or> passed L (scroll s) ob)"

definition orderInv :: "layout \<Rightarrow> game \<Rightarrow> bool" where
  "orderInv L s =
     (0 \<le> speed s \<and> collected s \<le> plannedMult s \<and>
      list_all (\<lambda>ob. ob_multiplier ob \<le> plannedMult s \<and>
                      ob_x ob \<le> spawnWorldXFor s 2 (shipRight L) (scroll s)) (obstacles s) \<and>
      sorted_wrt inOrder (obstacles s) \<and>
      list_all (ahead L s) (obstacles s))"


section \<open>Basic facts\<close>

lemmas consts_defs = HIT_INTERVAL_def SPEED_MULTIPLIER_def SHIP_LEFT_PAD_def
  SHIP_RIGHT_PAD_def ICE_LEFT_PAD_def ICE_RIGHT_PAD_def

declare cadenceSpawns.simps [simp del]

lemma cadenceSpawns_once:
  "cadenceSpawns L e n ls =
     (if \<not> spawnedThisFrame (fst ls) \<and> spawnAccum (snd ls) \<ge> HIT_INTERVAL \<and> n < 2 then
        (fst (spawnInto L e ls),
         (snd (spawnInto L e ls))\<lparr>spawnAccum := spawnAccum (snd (spawnInto L e ls)) - HIT_INTERVAL\<rparr>)
      else ls)"
  apply (subst cadenceSpawns.simps)
  apply (subst cadenceSpawns.simps)
  apply (simp add: spawnInto_def split: prod.splits)
  done

lemma filter_same_length: "length (filter P xs) = length xs \<Longrightarrow> filter P xs = xs"
proof (induction xs)
  case Nil
  then show ?case by simp
next
  case (Cons a xs)
  show ?case
  proof (cases "P a")
    case True
    with Cons show ?thesis by simp
  next
    case False
    with Cons.prems have "length (filter P xs) = Suc (length xs)" by simp
    moreover have "length (filter P xs) \<le> length xs" by (rule length_filter_le)
    ultimately show ?thesis by simp
  qed
qed

lemma spawnInto_char:
  "spawnInto L e (loc, s) =
     (loc\<lparr>updated := updated loc @ [newOb L e s], spawnedThisFrame := True, needCommit := True\<rparr>,
      s\<lparr>plannedMult := planValue (t_mult e) (nextIndex s) (plannedMult s),
        nextIndex := nextIndex s + 1\<rparr>)"
  by (simp add: spawnInto_def planNextMultiplier_def Let_def newOb_def spawnWorldXFor_def)

lemma spawns_char:
  assumes "\<not> spawnedThisFrame loc"
  shows "cadenceSpawns L e (idleCount (updated (fst (replacementSpawn L e b (loc, s)))))
           (replacementSpawn L e b (loc, s)) =
    (if spawnsNow b (updated loc) s then
       (loc\<lparr>updated := updated loc @ [newOb L e s], spawnedThisFrame := True, needCommit := True\<rparr>,
        s\<lparr>plannedMult := planValue (t_mult e) (nextIndex s) (plannedMult s),
          nextIndex := nextIndex s + 1,
          spawnAccum := (if b then 0 else spawnAccum s - HIT_INTERVAL)\<rparr>)
     else (loc, s))"
proof (cases "b \<and> idleCount (updated loc) < 2")
  case True
  then show ?thesis
    by (simp add: replacementSpawn_def spawnInto_char cadenceSpawns_once spawnsNow_def)
next
  case False
  then have r: "replacementSpawn L e b (loc, s) = (loc, s)"
    by (auto simp: replacementSpawn_def)
  show ?thesis
    using False assms
    by (auto simp: r cadenceSpawns_once spawnInto_char spawnsNow_def)
qed

lemma newOb_fields [simp]:
  "ob_state (newOb L e s) = ObIdle"
  "ob_id (newOb L e s) = t_id e"
  "ob_width (newOb L e s) = 220"
  "ob_bornAt (newOb L e s) = t_ts e"
  "ob_multiplier (newOb L e s) = planValue (t_mult e) (nextIndex s) (plannedMult s)"
  "ob_x (newOb L e s) = spawnWorldXFor s 2 (shipRight L) (scroll s)"
  "ob_iceberg (newOb L e s) = (t_ice e < icebergChance)"
  by (simp_all add: newOb_def mkObstacle_def)

lemma commit_cull:
  assumes "needCommit loc \<or> updated loc = obstacles s"
  shows "commit (cull (loc, s)) = s\<lparr>obstacles := filter (onScreen (scroll s)) (updated loc)\<rparr>"
proof (cases "length (filter (onScreen (scroll s)) (updated loc)) = length (updated loc)")
  case True
  then have c: "cull (loc, s) = (loc, s)"
    by (simp add: cull_def Let_def)
  have eq: "filter (onScreen (scroll s)) (updated loc) = updated loc"
    by (rule filter_same_length [OF True])
  show ?thesis
  proof (cases "needCommit loc")
    case True
    then show ?thesis by (simp add: c commit_def eq)
  next
    case False
    with assms have "updated loc = obstacles s" by simp
    with False eq show ?thesis by (simp add: c commit_def)
  qed
next
  case False
  then have c: "cull (loc, s) =
      (loc\<lparr>updated := filter (onScreen (scroll s)) (updated loc), needCommit := True\<rparr>, s)"
    by (simp add: cull_def Let_def)
  show ?thesis by (simp add: c commit_def)
qed

lemma tail_char:
  assumes "needCommit loc \<or> updated loc = obstacles s"
    and "\<not> spawnedThisFrame loc"
  shows "commit (cull (scheduleRemovals (cadenceSpawns L e
            (idleCount (updated (fst (replacementSpawn L e b (loc, s)))))
            (replacementSpawn L e b (loc, s))))) = frameTail L e b (updated loc) s"
proof (cases "spawnsNow b (updated loc) s")
  case True
  have "commit (cull (loc', s')) = s'\<lparr>obstacles := filter (onScreen (scroll s')) (updated loc')\<rparr>"
    if "needCommit loc'" for loc' s'
    using that by (intro commit_cull) simp
  then show ?thesis
    unfolding spawns_char [OF assms(2)] scheduleRemovals_def
    using True by (simp add: frameTail_def)
next
  case False
  have "commit (cull (loc, s')) = s'\<lparr>obstacles := filter (onScreen (scroll s')) (updated loc)\<rparr>"
    if "obstacles s' = obstacles s" for s'
    using assms(1) that by (intro commit_cull) simp
  then show ?thesis
    unfolding spawns_char [OF assms(2)] scheduleRemovals_def
    using False by (simp add: frameTail_def)
qed

lemma loop_char:
  "loop L e s0 =
     (if phase s0 \<noteq> Running then s0
      else case collide L (t_ts e) (scroll (advance (t_ts e) s0)) (obstacles s0) of
             CrashHit \<Rightarrow> crashOutcome (t_life e) (advance (t_ts e) s0)
           | NoHit \<Rightarrow> frameTail L e False (obstacles s0) (advance (t_ts e) s0)
           | SafeHit ob \<Rightarrow> frameTail L e True (markBreaking ob (obstacles s0))
                              (safeHitEffects ob (advance (t_ts e) s0)))"
proof -
  have obs: "obstacles (advance (t_ts e) s0) = obstacles s0"
    by (simp add: advance_def Let_def)
  have nohit: "commit (cull (scheduleRemovals (cadenceSpawns L e (idleCount (obstacles s0))
         (replacementSpawn L e False
            (\<lparr>updated = obstacles s0, needCommit = False, spawnedThisFrame = False\<rparr>,
             advance (t_ts e) s0)))))
       = frameTail L e False (obstacles s0) (advance (t_ts e) s0)"
    using tail_char [of "\<lparr>updated = obstacles s0, needCommit = False, spawnedThisFrame = False\<rparr>"
        "advance (t_ts e) s0" L e False]
    by (simp add: obs replacementSpawn_def)
  have safe: "commit (cull (scheduleRemovals (cadenceSpawns L e
         (idleCount (updated (fst (replacementSpawn L e True
            (\<lparr>updated = markBreaking ob (obstacles s0), needCommit = True,
              spawnedThisFrame = False\<rparr>,
             safeHitEffects ob (advance (t_ts e) s0))))))
         (replacementSpawn L e True
            (\<lparr>updated = markBreaking ob (obstacles s0), needCommit = True,
              spawnedThisFrame = False\<rparr>,
             safeHitEffects ob (advance (t_ts e) s0))))))
       = frameTail L e True (markBreaking ob (obstacles s0))
           (safeHitEffects ob (advance (t_ts e) s0))" for ob
    using tail_char [of "\<lparr>updated = markBreaking ob (obstacles s0), needCommit = True,
          spawnedThisFrame = False\<rparr>" "safeHitEffects ob (advance (t_ts e) s0)" L e True]
    by simp
  have crash: "commit (\<lparr>updated = obstacles s0, needCommit = False, spawnedThisFrame = False\<rparr>,
      crashOutcome (t_life e) (advance (t_ts e) s0)) = crashOutcome (t_life e) (advance (t_ts e) s0)"
    by (simp add: commit_def)
  show ?thesis
    by (simp add: loop_def Let_def obs nohit safe crash split: Hit.splits)
qed

lemma frameTail_fields [simp]:
  "phase (frameTail L e b U s) = phase s"
  "balance (frameTail L e b U s) = balance s"
  "bet (frameTail L e b U s) = bet s"
  "message (frameTail L e b U s) = message s"
  "countdown (frameTail L e b U s) = countdown s"
  "collected (frameTail L e b U s) = collected s"
  "safeHits (frameTail L e b U s) = safeHits s"
  "activeBet (frameTail L e b U s) = activeBet s"
  "hasCashed (frameTail L e b U s) = hasCashed s"
  "joined (frameTail L e b U s) = joined s"
  "speed (frameTail L e b U s) = speed s"
  "scroll (frameTail L e b U s) = scroll s"
  "lastTs (frameTail L e b U s) = lastTs s"
  "betTimers (frameTail L e b U s) = betTimers s"
  "pendingStart (frameTail L e b U s) = pendingStart s"
  "settleTimers (frameTail L e b U s) = settleTimers s"
  "started (frameTail L e b U s) = started s"
  "phaseRef (frameTail L e b U s) = phaseRef s"
  "joinedRef (frameTail L e b U s) = joinedRef s"
  "hasCashedRef (frameTail L e b U s) = hasCashedRef s"
  "collectedRef (frameTail L e b U s) = collectedRef s"
  "activeBetRefCurrent (frameTail L e b U s) = activeBetRefCurrent s"
  "closBet (frameTail L e b U s) = closBet s"
  "closBalance (frameTail L e b U s) = closBalance s"
  by (simp_all add: frameTail_def Let_def)

lemma advance_fields [simp]:
  "phase (advance ts s) = phase s"
  "balance (advance ts s) = balance s"
  "bet (advance ts s) = bet s"
  "message (advance ts s) = message s"
  "countdown (advance ts s) = countdown s"
  "collected (advance ts s) = collected s"
  "safeHits (advance ts s) = safeHits s"
  "obstacles (advance ts s) = obstacles s"
  "activeBet (advance ts s) = activeBet s"
  "hasCashed (advance ts s) = hasCashed s"
  "joined (advance ts s) = joined s"
  "speed (advance ts s) = speed s"
  "nextIndex (advance ts s) = nextIndex s"
  "plannedMult (advance ts s) = plannedMult s"
  "removalScheduled (advance ts s) = removalScheduled s"
  "betTimers (advance ts s) = betTimers s"
  "pendingStart (advance ts s) = pendingStart s"
  "settleTimers (advance ts s) = settleTimers s"
  "started (advance ts s) = started s"
  "lastTs (advance ts s) = Some ts"
  "scroll (advance ts s) = scroll s + speed s * frameDt ts s"
  "spawnAccum (advance ts s) = spawnAccum s + frameDt ts s"
  "phaseRef (advance ts s) = phaseRef s"
  "joinedRef (advance ts s) = joinedRef s"
  "hasCashedRef (advance ts s) = hasCashedRef s"
  "collectedRef (advance ts s) = collectedRef s"
  "activeBetRefCurrent (advance ts s) = activeBetRefCurrent s"
  "closBet (advance ts s) = closBet s"
  "closBalance (advance ts s) = closBalance s"
  by (simp_all add: advance_def Let_def)

lemma safeHitEffects_fields [simp]:
  "phase (safeHitEffects ob s) = phase s"
  "balance (safeHitEffects ob s) = balance s"
  "bet (safeHitEffects ob s) = bet s"
  "message (safeHitEffects ob s) = message s"
  "countdown (safeHitEffects ob s) = countdown s"
  "collected (safeHitEffects ob s) = ob_multiplier ob"
  "safeHits (safeHitEffects ob s) = safeHits s + 1"
  "obstacles (safeHitEffects ob s) = obstacles s"
  "activeBet (safeHitEffects ob s) = activeBet s"
  "hasCashed (safeHitEffects ob s) = hasCashed s"
  "joined (safeHitEffects ob s) = joined s"
  "speed (safeHitEffects ob s) = speed s"
  "nextIndex (safeHitEffects ob s) = nextIndex s"
  "plannedMult (safeHitEffects ob s) = plannedMult s"
  "removalScheduled (safeHitEffects ob s) = removalScheduled s"
  "betTimers (safeHitEffects ob s) = betTimers s"
  "pendingStart (safeHitEffects ob s) = pendingStart s"
  "settleTimers (safeHitEffects ob s) = settleTimers s"
  "started (safeHitEffects ob s) = started s"
  "lastTs (safeHitEffects ob s) = lastTs s"
  "scroll (safeHitEffects ob s) = scroll s"
  "spawnAccum (safeHitEffects ob s) = spawnAccum s"
  "phaseRef (safeHitEffects ob s) = phaseRef s"
  "joinedRef (safeHitEffects ob s) = joinedRef s"
  "hasCashedRef (safeHitEffects ob s) = hasCashedRef s"
  "collectedRef (safeHitEffects ob s) = collectedRef s"
  "activeBetRefCurrent (safeHitEffects ob s) = activeBetRefCurrent s"
  "closBet (safeHitEffects ob s) = closBet s"
  "closBalance (safeHitEffects ob s) = closBalance s"
  by (simp_all add: safeHitEffects_def)

lemma activeBetRef_kept [simp]:
  "activeBetRef (advance ts s) = activeBetRef s"
  "activeBetRef (frameTail L e b U s) = activeBetRef s"
  "activeBetRef (safeHitEffects ob s) = activeBetRef s"
  by (simp_all add: activeBetRef_def)

lemma crashOutcome_fields [simp]:
  "phase (crashOutcome r s) = (if r < 5 / 100 then Lifeboat else Crashed)"
  "balance (crashOutcome r s) =
     (if r < 5 / 100 \<and> \<not> hasCashed s then balance s + activeBetRef s * collected s else balance s)"
  "bet (crashOutcome r s) = bet s"
  "collected (crashOutcome r s) = collected s"
  "safeHits (crashOutcome r s) = safeHits s"
  "obstacles (crashOutcome r s) = obstacles s"
  "activeBet (crashOutcome r s) = activeBet s"
  "hasCashed (crashOutcome r s) = hasCashed s"
  "joined (crashOutcome r s) = joined s"
  "speed (crashOutcome r s) = speed s"
  "nextIndex (crashOutcome r s) = nextIndex s"
  "plannedMult (crashOutcome r s) = plannedMult s"
  "betTimers (crashOutcome r s) = betTimers s"
  "pendingStart (crashOutcome r s) = pendingStart s"
  "started (crashOutcome r s) = started s"
  "scroll (crashOutcome r s) = scroll s"
  "phaseRef (crashOutcome r s) = phaseRef s"
  "joinedRef (crashOutcome r s) = joinedRef s"
  "hasCashedRef (crashOutcome r s) = hasCashedRef s"
  "collectedRef (crashOutcome r s) = collectedRef s"
  "activeBetRefCurrent (crashOutcome r s) = activeBetRefCurrent s"
  "closBet (crashOutcome r s) = closBet s"
  "closBalance (crashOutcome r s) = closBalance s"
  by (simp_all add: crashOutcome_def Let_def activeBetRef_def)

lemma cashOutNow_char:
  "cashOutNow s =
     (if phaseRef s = Running \<and> joinedRef s \<and> \<not> hasCashedRef s
      then s\<lparr>balance := balance s + activeBetRefCurrent s * collectedRef s, hasCashed := True,
             message := MsgCashedOut\<rparr>
      else s)"
  by (simp add: cashOutNow_def Let_def)

lemmas action_defs = cashOutNow_def cancelBet_def placeBet_def setBetInput_def doubleBet_def
  halveBet_def betEditable_def removalTimer_def settleOld_def countdownTick_def
  startBettingPhase_def clearBettingTimers_def startRound_def openBetting_def mirrorEffects_def

lemmas eval_defs = action_defs L0_def startEnv0_def tickEnv_def warmup_def init_def animDone_def beginRound_def
  planNextMultiplier_def planValue_def rand_def toFixed2_def clamp_def spawnWorldXFor_def mkObstacle_def
  consts_defs icebergChance_def activeBetRef_def Let_def


lemmas frame_defs = frameTail_def spawnsNow_def newOb_def advance_def frameDt_def
  collide.simps fresh_def contact_def onScreen_def idleCount_def crashOutcome_def safeHitEffects_def
  markBreaking_def

lemma preCrash_reached: "run L0 roundTrace init = preCrash"
  apply (simp add: roundTrace_def frames_def upt_rec preCrash_def)
  apply (simp add: loop_char frame_defs eval_defs)
  done


lemma step_phase:
  "phase (step L ev s) = phase s \<or> phase (step L ev s) \<in> {Betting, Running, Crashed, Lifeboat}"
proof (cases ev)
  case (Frame e)
  then show ?thesis by (simp add: loop_char split: Hit.splits)
next
  case (AnimDone e)
  then show ?thesis
    by (simp add: animDone_def beginRound_def planNextMultiplier_def Let_def split: list.splits)
qed (simp_all add: action_defs Let_def)

lemma run_phase: "phase s \<noteq> Cashed \<Longrightarrow> phase (run L es s) \<noteq> Cashed"
proof (induction es arbitrary: s)
  case Nil
  then show ?case by simp
next
  case (Cons ev es)
  from step_phase [of L ev s] Cons.prems have "phase (step L ev s) \<noteq> Cashed" by auto
  then show ?case using Cons.IH by simp
qed

lemma twoDecimals_of_int: "twoDecimals (of_int n / 100)"
proof -
  have a: "\<lfloor>(of_int n :: real) + 1 / 2\<rfloor> = n" by linarith
  have b: "\<lfloor>- (of_int n :: real) + 1 / 2\<rfloor> = - n" by linarith
  show ?thesis
    by (simp add: twoDecimals_def toFixed2_def a b)
qed

lemma toFixed2_twoDecimals: "twoDecimals (toFixed2 v)"
proof -
  have "\<exists>n::int. toFixed2 v = of_int n / 100"
  proof (cases "v < 0")
    case True
    then have "toFixed2 v = of_int (- \<lfloor>- v * 100 + 1 / 2\<rfloor>) / 100"
      by (simp add: toFixed2_def)
    then show ?thesis by blast
  next
    case False
    then have "toFixed2 v = of_int \<lfloor>v * 100 + 1 / 2\<rfloor> / 100"
      by (simp add: toFixed2_def)
    then show ?thesis by blast
  qed
  then obtain n :: int where "toFixed2 v = of_int n / 100" by blast
  then show ?thesis by (simp only: twoDecimals_of_int)
qed

lemma twoDecimals_iff: "twoDecimals v \<longleftrightarrow> (\<exists>n::int. v = of_int n / 100)"
proof
  assume "twoDecimals v"
  then have v: "toFixed2 v = v" by (simp add: twoDecimals_def)
  show "\<exists>n::int. v = of_int n / 100"
  proof (cases "v < 0")
    case True
    with v have "v = of_int (- \<lfloor>- v * 100 + 1 / 2\<rfloor>) / 100"
      by (simp add: toFixed2_def)
    then show ?thesis by blast
  next
    case False
    with v have "v = of_int \<lfloor>v * 100 + 1 / 2\<rfloor> / 100"
      by (simp add: toFixed2_def)
    then show ?thesis by blast
  qed
next
  assume "\<exists>n::int. v = of_int n / 100"
  then obtain n :: int where "v = of_int n / 100" by blast
  then show "twoDecimals v" by (simp only: twoDecimals_of_int)
qed

lemma twoDecimals_add: "twoDecimals a \<Longrightarrow> twoDecimals b \<Longrightarrow> twoDecimals (a + b)"
proof -
  assume "twoDecimals a" "twoDecimals b"
  then obtain m n :: int where "a = of_int m / 100" "b = of_int n / 100"
    by (auto simp: twoDecimals_iff)
  then have "a + b = of_int (m + n) / 100" by simp
  then show ?thesis unfolding twoDecimals_iff by blast
qed

lemma twoDecimals_numerals [simp]:
  "twoDecimals 1" "twoDecimals (11 / 10)" "twoDecimals (13 / 10)" "twoDecimals (21 / 10)"
  "twoDecimals (5 / 100)"
  by (simp_all add: twoDecimals_def toFixed2_def)

lemma toFixed2_mono: "a \<le> b \<Longrightarrow> toFixed2 a \<le> toFixed2 b"
proof -
  assume ab: "a \<le> b"
  consider "0 \<le> a" | "b < 0" | "a < 0" "0 \<le> b" using ab by linarith
  then show ?thesis
  proof cases
    case 1
    with ab have "\<lfloor>a * 100 + 1 / 2\<rfloor> \<le> \<lfloor>b * 100 + 1 / 2\<rfloor>"
      by (intro floor_mono) simp
    with 1 ab show ?thesis by (simp add: toFixed2_def divide_right_mono)
  next
    case 2
    with ab have "\<lfloor>- b * 100 + 1 / 2\<rfloor> \<le> \<lfloor>- a * 100 + 1 / 2\<rfloor>"
      by (intro floor_mono) simp
    with 2 ab show ?thesis by (simp add: toFixed2_def divide_right_mono)
  next
    case 3
    have "(0::real) \<le> of_int \<lfloor>- a * 100 + 1 / 2\<rfloor>" using 3 by simp
    then have "toFixed2 a \<le> 0" using 3 by (simp add: toFixed2_def)
    moreover have "(0::real) \<le> of_int \<lfloor>b * 100 + 1 / 2\<rfloor>" using 3 by simp
    then have "0 \<le> toFixed2 b" using 3 by (simp add: toFixed2_def)
    ultimately show ?thesis by linarith
  qed
qed

lemma toFixed2_ge: "twoDecimals a \<Longrightarrow> a \<le> v \<Longrightarrow> a \<le> toFixed2 v"
  using toFixed2_mono [of a v] by (simp add: twoDecimals_def)

lemma toFixed2_le: "twoDecimals b \<Longrightarrow> v \<le> b \<Longrightarrow> toFixed2 v \<le> b"
  using toFixed2_mono [of v b] by (simp add: twoDecimals_def)

lemma planValue_first:
  assumes "unit_draw r"
  shows "11 / 10 \<le> planValue r 1 p \<and> planValue r 1 p \<le> 13 / 10"
proof -
  have b: "11 / 10 \<le> rand (11 / 10) (13 / 10) r" "rand (11 / 10) (13 / 10) r \<le> 13 / 10"
    using assms by (simp_all add: rand_def unit_draw_def)
  have pv: "planValue r 1 p = toFixed2 (rand (11 / 10) (13 / 10) r)"
    by (simp add: planValue_def)
  show ?thesis
    unfolding pv
    using toFixed2_ge [OF twoDecimals_numerals(2) b(1)] toFixed2_le [OF twoDecimals_numerals(3) b(2)]
    by blast
qed

lemma planValue_early:
  assumes "unit_draw r" "2 \<le> idx" "idx \<le> 5" "twoDecimals p" "p \<le> 21 / 10"
  shows "planValue r idx p \<le> 21 / 10 \<and> p \<le> planValue r idx p \<and>
         (p < 21 / 10 \<longrightarrow> p < planValue r idx p)"
proof -
  define inc where "inc = rand (5 / 100) (3 / 10) r"
  define nxt0 where "nxt0 = min (21 / 10) (p + inc)"
  define nxt where "nxt = (if nxt0 \<le> p then min (21 / 10) (p + 5 / 100) else nxt0)"
  have inc: "5 / 100 \<le> inc"
    using assms(1) by (simp add: inc_def rand_def unit_draw_def)
  have pv: "planValue r idx p = toFixed2 nxt"
    using assms(2,3) by (simp add: planValue_def Let_def inc_def nxt0_def nxt_def)
  have lo: "min (21 / 10) (p + 5 / 100) \<le> nxt" and hi: "nxt \<le> 21 / 10"
    using inc by (auto simp: nxt_def nxt0_def min_def)
  have t5: "twoDecimals (p + 5 / 100)"
    by (rule twoDecimals_add [OF assms(4) twoDecimals_numerals(5)])
  have td: "twoDecimals (min (21 / 10) (p + 5 / 100))"
  proof (cases "21 / 10 \<le> p + 5 / 100")
    case True
    then have "min (21 / 10) (p + 5 / 100) = 21 / 10" by (rule min.absorb1)
    then show ?thesis by (simp only: twoDecimals_numerals)
  next
    case False
    then have "p + 5 / 100 \<le> 21 / 10" by linarith
    then have "min (21 / 10) (p + 5 / 100) = p + 5 / 100" by (rule min.absorb2)
    then show ?thesis by (simp only: t5)
  qed
  have m1: "p \<le> min (21 / 10) (p + 5 / 100)"
    using assms(5) by (simp add: min_def)
  have m2: "p < min (21 / 10) (p + 5 / 100)" if "p < 21 / 10"
    using that by (simp add: min_def)
  show ?thesis
    unfolding pv
    using toFixed2_ge [OF td lo] toFixed2_le [OF twoDecimals_numerals(4) hi] m1 m2
    by (metis order_trans less_le_trans)
qed

lemma planValue_late:
  assumes "unit_draw r" "\<not> (idx = 1)" "\<not> (2 \<le> idx \<and> idx \<le> 5)" "twoDecimals p"
  shows "p + 1 \<le> planValue r idx p"
proof -
  have "1 \<le> rand 1 3 r" using assms(1) by (simp add: rand_def unit_draw_def)
  then have "1 \<le> toFixed2 (rand 1 3 r)" by (rule toFixed2_ge [OF twoDecimals_numerals(1)])
  then have le: "p + 1 \<le> p + toFixed2 (rand 1 3 r)" by simp
  have td: "twoDecimals (p + 1)"
    by (rule twoDecimals_add [OF assms(4) twoDecimals_numerals(1)])
  have pv: "planValue r idx p = toFixed2 (p + toFixed2 (rand 1 3 r))"
    unfolding planValue_def Let_def by (simp only: assms(2,3) if_False)
  show ?thesis unfolding pv by (rule toFixed2_ge [OF td le])
qed

lemma planValue_twoDecimals: "twoDecimals (planValue r idx p)"
  by (simp add: planValue_def Let_def toFixed2_twoDecimals)

lemma planMany_Cons:
  "planMany (r # rs) s =
     planValue r (nextIndex s) (plannedMult s) #
     planMany rs (s\<lparr>plannedMult := planValue r (nextIndex s) (plannedMult s),
                    nextIndex := nextIndex s + 1\<rparr>)"
  apply (simp add: planNextMultiplier_def)
  apply (simp add: Let_def)
  done

declare planMany.simps(2) [simp del]

lemma planMany_length [simp]: "length (planMany rs s) = length rs"
  by (induction rs arbitrary: s) (simp_all add: planMany_Cons)

lemma planMany_nth:
  assumes "list_all unit_draw rs" and "i < length rs"
    and "1 \<le> nextIndex s"
    and "2 \<le> nextIndex s \<longrightarrow> twoDecimals (plannedMult s)"
    and "2 \<le> nextIndex s \<and> nextIndex s \<le> 5 \<longrightarrow> plannedMult s \<le> 21 / 10"
  shows "twoDecimals (planMany rs s ! i) \<and>
     (nextIndex s + i = 1 \<longrightarrow> 11 / 10 \<le> planMany rs s ! i \<and> planMany rs s ! i \<le> 13 / 10) \<and>
     (2 \<le> nextIndex s + i \<and> nextIndex s + i \<le> 5 \<longrightarrow>
        planMany rs s ! i \<le> 21 / 10 \<and>
        (plannedMult s # planMany rs s) ! i \<le> planMany rs s ! i \<and>
        ((plannedMult s # planMany rs s) ! i < 21 / 10 \<longrightarrow>
           (plannedMult s # planMany rs s) ! i < planMany rs s ! i)) \<and>
     (\<not> nextIndex s + i = 1 \<and> \<not> (2 \<le> nextIndex s + i \<and> nextIndex s + i \<le> 5) \<longrightarrow>
        (plannedMult s # planMany rs s) ! i + 1 \<le> planMany rs s ! i)"
  using assms
proof (induction rs arbitrary: s i)
  case Nil
  then show ?case by simp
next
  case (Cons r rs)
  define v where "v = planValue r (nextIndex s) (plannedMult s)"
  define s' where "s' = s\<lparr>plannedMult := v, nextIndex := nextIndex s + 1\<rparr>"
  have pm: "planMany (r # rs) s = v # planMany rs s'"
    unfolding v_def s'_def by (rule planMany_Cons)
  have r: "unit_draw r" and rs: "list_all unit_draw rs" using Cons.prems(1) by simp_all
  have tv: "twoDecimals v" by (simp add: v_def planValue_twoDecimals)
  have first: "11 / 10 \<le> v \<and> v \<le> 13 / 10" if "nextIndex s = 1"
    using planValue_first [OF r, of "plannedMult s"] that by (simp add: v_def)
  have early: "v \<le> 21 / 10 \<and> plannedMult s \<le> v \<and> (plannedMult s < 21 / 10 \<longrightarrow> plannedMult s < v)"
    if "2 \<le> nextIndex s" "nextIndex s \<le> 5"
    unfolding v_def using that Cons.prems(4,5) by (intro planValue_early [OF r]) auto
  have late: "plannedMult s + 1 \<le> v"
    if "\<not> nextIndex s = 1" "\<not> (2 \<le> nextIndex s \<and> nextIndex s \<le> 5)"
  proof -
    from that Cons.prems(3) have "2 \<le> nextIndex s" by linarith
    with Cons.prems(4) have "twoDecimals (plannedMult s)" by simp
    from planValue_late [OF r that this] show ?thesis by (simp add: v_def)
  qed
  show ?case
  proof (cases i)
    case 0
    then show ?thesis using tv first early late by (simp add: pm)
  next
    case (Suc j)
    have j: "j < length rs" using Cons.prems(2) Suc by simp
    have p1: "2 \<le> nextIndex s' \<longrightarrow> twoDecimals (plannedMult s')"
      using tv by (simp add: s'_def)
    have p2: "2 \<le> nextIndex s' \<and> nextIndex s' \<le> 5 \<longrightarrow> plannedMult s' \<le> 21 / 10"
    proof (cases "nextIndex s = 1")
      case True
      with first show ?thesis by (simp add: s'_def)
    next
      case False
      with early show ?thesis by (auto simp: s'_def)
    qed
    have p0: "1 \<le> nextIndex s'" by (simp add: s'_def)
    from Cons.IH [OF rs j p0 p1 p2]
    show ?thesis by (simp add: pm Suc s'_def)
  qed
qed

lemma planValue_grows:
  assumes "unit_draw r" "1 \<le> idx" "1 \<le> p" "idx = 1 \<longrightarrow> p \<le> 11 / 10"
    "2 \<le> idx \<longrightarrow> twoDecimals p" "2 \<le> idx \<and> idx \<le> 5 \<longrightarrow> p \<le> 21 / 10"
  shows "p \<le> planValue r idx p \<and> 1 \<le> planValue r idx p \<and>
         twoDecimals (planValue r idx p) \<and>
         (idx + 1 \<le> 5 \<longrightarrow> planValue r idx p \<le> 21 / 10)"
proof -
  consider "idx = 1" | "2 \<le> idx" "idx \<le> 5" | "\<not> idx = 1" "\<not> (2 \<le> idx \<and> idx \<le> 5)"
    by blast
  then have "p \<le> planValue r idx p \<and> (idx + 1 \<le> 5 \<longrightarrow> planValue r idx p \<le> 21 / 10)"
  proof cases
    case 1
    with planValue_first [OF assms(1), of p] assms(4) show ?thesis by simp
  next
    case 2
    with planValue_early [OF assms(1) 2] assms(5,6) show ?thesis by simp
  next
    case 3
    with assms(2) have i: "2 \<le> idx" "\<not> idx + 1 \<le> 5" by linarith+
    with assms(5) have "twoDecimals p" by simp
    from planValue_late [OF assms(1) 3 this] have "p \<le> planValue r idx p" by linarith
    with i show ?thesis by simp
  qed
  with assms(3) show ?thesis by (simp add: planValue_twoDecimals)
qed

lemma seqInv_spawn:
  assumes "seqInv s" "unit_draw (t_mult e)"
  shows "plannedMult s \<le> planValue (t_mult e) (nextIndex s) (plannedMult s)"
    and "1 \<le> planValue (t_mult e) (nextIndex s) (plannedMult s)"
    and "twoDecimals (planValue (t_mult e) (nextIndex s) (plannedMult s))"
    and "nextIndex s + 1 \<le> 5 \<longrightarrow> planValue (t_mult e) (nextIndex s) (plannedMult s) \<le> 21 / 10"
  using planValue_grows [OF assms(2), of "nextIndex s" "plannedMult s"] assms(1)
  by (simp_all add: seqInv_def)

lemma collide_SafeHit:
  "collide L ts sc obs = SafeHit ob \<Longrightarrow>
     ob \<in> set obs \<and> \<not> ob_iceberg ob \<and> ob_state ob = ObIdle \<and> contact L sc ob \<and> \<not> fresh ts ob"
  by (induction obs) (auto split: if_splits)

lemma list_all_markBreaking:
  "list_all (\<lambda>ob. P (ob_multiplier ob)) obs \<Longrightarrow>
   list_all (\<lambda>ob. P (ob_multiplier ob)) (markBreaking hit obs)"
  by (induction obs) (simp_all add: markBreaking_def)

lemma list_all_filter: "list_all P xs \<Longrightarrow> list_all P (filter Q xs)"
  by (induction xs) simp_all

lemma seqInv_frameTail:
  assumes "seqInv s" "unit_draw (t_mult e)" "list_all (\<lambda>ob. 1 \<le> ob_multiplier ob) U0"
  shows "seqInv (frameTail L e b U0 s)"
proof -
  note sp = seqInv_spawn [OF assms(1,2)]
  have a: "list_all (\<lambda>ob. 1 \<le> ob_multiplier ob)
      (filter (onScreen (scroll s)) (U0 @ (if spawnsNow b U0 s then [newOb L e s] else [])))"
    using assms(3) sp(2) by (intro list_all_filter) simp
  show ?thesis
  proof (cases "spawnsNow b U0 s")
    case True
    with a sp assms(1) show ?thesis
      by (simp add: seqInv_def frameTail_def Let_def)
  next
    case False
    with a assms(1) show ?thesis
      by (simp add: seqInv_def frameTail_def Let_def)
  qed
qed

lemma seqInv_advance [simp]: "seqInv (advance ts s) = seqInv s"
  by (simp add: seqInv_def)

lemma seqInv_loop:
  assumes "seqInv s" "unit_draw (t_mult e)"
  shows "seqInv (loop L e s)"
proof (cases "phase s = Running")
  case False
  with assms show ?thesis by (simp add: loop_char)
next
  case True
  have obs: "list_all (\<lambda>ob. 1 \<le> ob_multiplier ob) (obstacles s)"
    using assms(1) by (simp add: seqInv_def)
  show ?thesis
  proof (cases "collide L (t_ts e) (scroll (advance (t_ts e) s)) (obstacles s)")
    case NoHit
    with True seqInv_frameTail [of "advance (t_ts e) s" e "obstacles s" L False] assms obs
    show ?thesis by (simp add: loop_char)
  next
    case CrashHit
    with True assms show ?thesis by (simp add: loop_char seqInv_def)
  next
    case (SafeHit ob)
    from collide_SafeHit [OF SafeHit] obs have m: "1 \<le> ob_multiplier ob"
      by (auto simp: list_all_iff)
    have "seqInv (safeHitEffects ob (advance (t_ts e) s))"
      using assms(1) m by (simp add: seqInv_def)
    from seqInv_frameTail [OF this assms(2), of "markBreaking ob (obstacles s)" L True]
      list_all_markBreaking [of "\<lambda>m. 1 \<le> m", OF obs, of ob] SafeHit True
    show ?thesis by (simp add: loop_char)
  qed
qed

lemma seqInv_beginRound:
  assumes "unit_draw (s_mult1 e)" "unit_draw (s_mult2 e)" "1 \<le> collectedRef s"
  shows "seqInv (beginRound L e stake s)"
proof -
  define m1 where "m1 = planValue (s_mult1 e) 1 1"
  define m2 where "m2 = planValue (s_mult2 e) 2 m1"
  have g1: "1 \<le> m1 \<and> twoDecimals m1 \<and> m1 \<le> 21 / 10"
    using planValue_grows [OF assms(1), of 1 1] by (simp add: m1_def)
  then have g2: "m1 \<le> m2 \<and> 1 \<le> m2 \<and> twoDecimals m2 \<and> m2 \<le> 21 / 10"
    using planValue_grows [OF assms(2), of 2 m1] by (simp add: m2_def)
  have n: "nextIndex (beginRound L e stake s) = 3" "plannedMult (beginRound L e stake s) = m2"
    "collected (beginRound L e stake s) = 1"
    "collectedRef (beginRound L e stake s) = collectedRef s"
    "list_all (\<lambda>ob. 1 \<le> ob_multiplier ob) (obstacles (beginRound L e stake s))
       \<longleftrightarrow> 1 \<le> m1 \<and> 1 \<le> m2"
    by (simp_all add: beginRound_def planNextMultiplier_def Let_def mkObstacle_def m1_def m2_def
        numeral_2_eq_2)
  have "list_all (\<lambda>ob. 1 \<le> ob_multiplier ob) (obstacles (beginRound L e stake s))"
    using n(5) g1 g2 by blast
  with n(1,2,3,4) g2 assms(3) show ?thesis by (simp add: seqInv_def)
qed

lemma seqInv_step:
  assumes "seqInv s" "wf_event s ev"
  shows "seqInv (step L ev s)"
proof (cases ev)
  case (Frame e)
  with assms seqInv_loop show ?thesis by simp
next
  case (AnimDone e)
  have "1 \<le> collectedRef s" using assms(1) by (simp add: seqInv_def)
  then have "seqInv (beginRound L e stake (s\<lparr>pendingStart := rest\<rparr>))" for stake rest
    using AnimDone assms(2) by (intro seqInv_beginRound) simp_all
  with AnimDone assms(1) show ?thesis
    by (simp add: animDone_def split: list.splits)
next
  case BetTimeout
  with assms show ?thesis
    by (simp add: action_defs seqInv_def Let_def list_all_iff)
next
  case SettleTimer
  with assms show ?thesis
    by (simp add: action_defs seqInv_def list_all_iff)
next
  case (RemovalTimer i)
  with assms show ?thesis
    by (simp add: action_defs seqInv_def list_all_iff)
qed (use assms in \<open>simp_all add: action_defs seqInv_def Let_def\<close>)

lemma clamp_bounds: "a \<le> b \<Longrightarrow> a \<le> clamp n a b \<and> clamp n a b \<le> b"
  by (simp add: clamp_def)

lemma clamp_lower: "a \<le> clamp n a b"
  by (simp add: clamp_def)

lemma activeBetRef_nonneg:
  "(case activeBet s of None \<Rightarrow> True | Some v \<Rightarrow> 1 \<le> v) \<Longrightarrow> 0 \<le> activeBetRef s"
  by (simp add: activeBetRef_def split: option.splits)

text \<open>The stake that \<open>startRound\<close> computes.\<close>

lemma startRound_stake:
  assumes "\<not> closBalance s < 1" "phaseRef s \<noteq> Running"
  shows "\<exists>stake. 1 \<le> stake \<and> stake \<le> closBalance s \<and>
           startRound s = (clearBettingTimers s)\<lparr>
             obstacles := map (\<lambda>ob. ob\<lparr>ob_state := ObBreaking\<rparr>) (obstacles s),
             settleTimers := settleTimers s + 1,
             pendingStart := pendingStart s @ [stake]\<rparr>"
proof -
  define stake where "stake =
    (if joinedRef s \<and> activeBetRefCurrent s > 0 then clamp (activeBetRefCurrent s) 1 (closBalance s)
     else clamp (closBet s) 1 (closBalance s))"
  have b: "1 \<le> closBalance s" using assms(1) by simp
  have "1 \<le> stake \<and> stake \<le> closBalance s"
  proof (cases "joinedRef s \<and> activeBetRefCurrent s > 0")
    case True
    then have "stake = clamp (activeBetRefCurrent s) 1 (closBalance s)"
      by (simp add: stake_def)
    with clamp_bounds [OF b, of "activeBetRefCurrent s"] show ?thesis by (simp only:)
  next
    case False
    then have "stake = clamp (closBet s) 1 (closBalance s)"
      by (auto simp: stake_def)
    with clamp_bounds [OF b, of "closBet s"] show ?thesis by (simp only:)
  qed
  moreover have "startRound s = (clearBettingTimers s)\<lparr>
             obstacles := map (\<lambda>ob. ob\<lparr>ob_state := ObBreaking\<rparr>) (obstacles s),
             settleTimers := settleTimers s + 1,
             pendingStart := pendingStart s @ [stake]\<rparr>"
    unfolding startRound_def Let_def stake_def using assms by simp
  ultimately show ?thesis by blast
qed

lemma ledgerInv_startBetting:
  assumes "ledgerInv s" "pendingStart s = []" "closBalance s \<le> balance s"
  shows "ledgerInv (startBettingPhase s)"
  using assms by (simp add: ledgerInv_def startBettingPhase_def clearBettingTimers_def)

lemma ledgerInv_openBetting:
  assumes "ledgerInv s" "pendingStart s = []"
  shows "ledgerInv (openBetting s)"
proof -
  have "ledgerInv (s\<lparr>closBet := bet s, closBalance := balance s\<rparr>)"
    using assms(1) by (simp add: ledgerInv_def)
  then show ?thesis
    unfolding openBetting_def using assms(2) by (intro ledgerInv_startBetting) simp_all
qed

lemma ledgerInv_BetTimeout:
  assumes "ledgerInv s"
  shows "ledgerInv (step L BetTimeout s)"
proof (cases "betTimers s")
  case False
  with assms show ?thesis by simp
next
  case True
  with assms have p: "pendingStart s = []" "phase s = Betting" "closBalance s \<le> balance s"
    "phaseRef s = Betting"
    by (auto simp: ledgerInv_def)
  let ?c = "clearBettingTimers s"
  have c: "ledgerInv ?c" "pendingStart ?c = []" "phase ?c = Betting" "balance ?c = balance s"
    "closBalance ?c = closBalance s" "phaseRef ?c = Betting"
    using assms p by (simp_all add: ledgerInv_def clearBettingTimers_def)
  show ?thesis
  proof (cases "closBalance s < 1")
    case low: True
    have "ledgerInv (?c\<lparr>message := MsgInsufficientStart\<rparr>)"
      using c(1) by (simp add: ledgerInv_def)
    then have "ledgerInv (startBettingPhase (?c\<lparr>message := MsgInsufficientStart\<rparr>))"
      using c p by (intro ledgerInv_startBetting) simp_all
    with True low c show ?thesis by (simp add: startRound_def)
  next
    case ok: False
    then have "\<not> closBalance ?c < 1" "phaseRef ?c \<noteq> Running" using c by simp_all
    from startRound_stake [OF this] obtain stake where
      st: "1 \<le> stake" "stake \<le> closBalance s"
      "startRound ?c = (clearBettingTimers ?c)\<lparr>
             obstacles := map (\<lambda>ob. ob\<lparr>ob_state := ObBreaking\<rparr>) (obstacles ?c),
             settleTimers := settleTimers ?c + 1,
             pendingStart := pendingStart ?c @ [stake]\<rparr>"
      using c(5) by auto
    have eq: "step L BetTimeout s = (clearBettingTimers ?c)\<lparr>
             obstacles := map (\<lambda>ob. ob\<lparr>ob_state := ObBreaking\<rparr>) (obstacles ?c),
             settleTimers := settleTimers ?c + 1,
             pendingStart := pendingStart ?c @ [stake]\<rparr>"
      using True st(3) by simp
    have "stake \<le> balance s" using st(2) p(3) by linarith
    then show ?thesis
      unfolding eq using assms p st(1)
      by (simp add: ledgerInv_def clearBettingTimers_def)
  qed
qed

lemma ledgerInv_beginRound:
  assumes "ledgerInv s" "pendingStart s = [stake]" "betMirrored s"
  shows "ledgerInv (beginRound L e stake (s\<lparr>pendingStart := []\<rparr>))"
  using assms
  by (auto simp: ledgerInv_def beginRound_def planNextMultiplier_def Let_def betMirrored_def)

lemma ledgerInv_loop:
  assumes "ledgerInv s" "0 \<le> collected s"
  shows "ledgerInv (loop L e s)"
proof (cases "phase s = Running")
  case False
  with assms show ?thesis by (simp add: loop_char)
next
  case True
  with assms(1) have p: "pendingStart s = []" "\<not> betTimers s"
    by (auto simp: ledgerInv_def)
  have pay: "0 \<le> activeBetRef s * collected s"
    using assms activeBetRef_nonneg [of s] by (simp add: ledgerInv_def)
  show ?thesis
    using True assms(1) p pay
    by (cases "collide L (t_ts e) (scroll (advance (t_ts e) s)) (obstacles s)")
       (simp_all add: loop_char ledgerInv_def)
qed

lemma ledgerInv_step:
  assumes "ledgerInv s" "0 \<le> collected s" "0 \<le> collectedRef s" "wf_event s ev"
  shows "ledgerInv (step L ev s)"
proof (cases ev)
  case (Frame e)
  with assms ledgerInv_loop show ?thesis by simp
next
  case (AnimDone e)
  show ?thesis
  proof (cases "pendingStart s")
    case Nil
    with AnimDone assms show ?thesis by (simp add: animDone_def)
  next
    case (Cons stake rest)
    with assms(1) have "rest = []" by (simp add: ledgerInv_def)
    moreover have "betMirrored s" using assms(4) AnimDone by simp
    ultimately show ?thesis
      using Cons AnimDone ledgerInv_beginRound [OF assms(1), of stake L e]
      by (simp add: animDone_def)
  qed
next
  case BetTimeout
  with assms ledgerInv_BetTimeout show ?thesis by simp
next
  case Ready
  show ?thesis
  proof (cases "\<not> started s \<and> phaseRef s = Idle")
    case True
    with assms(1) have "pendingStart s = []" by (auto simp: ledgerInv_def)
    moreover have "ledgerInv (s\<lparr>started := True\<rparr>)" using assms(1) by (simp add: ledgerInv_def)
    ultimately have "ledgerInv (openBetting (s\<lparr>started := True\<rparr>))"
      by (intro ledgerInv_openBetting) simp_all
    with Ready True show ?thesis by simp
  next
    case False
    with Ready assms(1) show ?thesis by auto
  qed
next
  case PhaseEffect
  show ?thesis
  proof (cases "phase s = Crashed \<or> phase s = Lifeboat")
    case True
    with assms(1) have "pendingStart s = []" by (auto simp: ledgerInv_def)
    with assms(1) have "ledgerInv (openBetting s)" by (intro ledgerInv_openBetting)
    with PhaseEffect True show ?thesis by simp
  next
    case False
    with PhaseEffect assms(1) show ?thesis by auto
  qed
next
  case CashOut
  have "0 \<le> activeBetRefCurrent s * collectedRef s"
    using assms(1,3) by (simp add: ledgerInv_def)
  with CashOut assms(1) show ?thesis
    by (auto simp: cashOutNow_char ledgerInv_def)
next
  case PlaceBet
  with assms(1) clamp_lower [of 1 "bet s" "balance s"] show ?thesis
    by (auto simp: placeBet_def ledgerInv_def Let_def)
next
  case RenderCommit
  with assms(1) activeBetRef_nonneg [of s] show ?thesis
    by (auto simp: mirrorEffects_def ledgerInv_def)
next
  case CountdownTick
  with assms(1) show ?thesis by (auto simp: countdownTick_def ledgerInv_def Let_def)
next
  case SettleTimer
  with assms(1) show ?thesis by (auto simp: settleOld_def ledgerInv_def)
next
  case CancelBet
  with assms(1) show ?thesis by (auto simp: cancelBet_def ledgerInv_def)
next
  case (SetBet v)
  with assms(1) show ?thesis by (auto simp: setBetInput_def betEditable_def ledgerInv_def)
next
  case DoubleBet
  with assms(1) show ?thesis by (auto simp: doubleBet_def betEditable_def ledgerInv_def)
next
  case HalveBet
  with assms(1) show ?thesis by (auto simp: halveBet_def betEditable_def ledgerInv_def)
next
  case (RemovalTimer i)
  with assms(1) show ?thesis by (auto simp: removalTimer_def ledgerInv_def)
qed

text \<open>The invariants hold along every run whose inputs are well formed.\<close>

lemma invs_init: "seqInv init \<and> ledgerInv init"
  by (simp add: seqInv_def ledgerInv_def init_def)

lemma invs_step:
  assumes "seqInv s \<and> ledgerInv s" "wf_event s ev"
  shows "seqInv (step L ev s) \<and> ledgerInv (step L ev s)"
proof -
  have c: "0 \<le> collected s" "0 \<le> collectedRef s" using assms(1) by (simp_all add: seqInv_def)
  show ?thesis
    using assms c seqInv_step ledgerInv_step by blast
qed

lemma invs_run:
  assumes "seqInv s \<and> ledgerInv s" "wf_trace L s es"
  shows "seqInv (run L es s) \<and> ledgerInv (run L es s)"
  using assms
proof (induction es arbitrary: s)
  case Nil
  then show ?case by simp
next
  case (Cons ev es)
  then have w: "wf_event s ev" "wf_trace L (step L ev s) es" by simp_all
  from Cons.IH [OF invs_step [OF Cons.prems(1) w(1)] w(2)] show ?case by simp
qed

lemma balance_step:
  assumes "seqInv s" "ledgerInv s" "wf_event s ev"
  shows "balance (step L ev s) = balance s \<or>
     (\<exists>e stake rest. ev = AnimDone e \<and> pendingStart s = stake # rest \<and> joined s \<and>
        phase s = Betting \<and> phase (step L ev s) = Running \<and>
        1 \<le> stake \<and> stake \<le> balance s \<and> balance (step L ev s) = balance s - stake) \<or>
     (ev = CashOut \<and> 0 \<le> activeBetRefCurrent s * collectedRef s \<and>
        balance (step L ev s) = balance s + activeBetRefCurrent s * collectedRef s) \<or>
     (\<exists>e. ev = Frame e \<and> phase s = Running \<and> phase (step L ev s) = Lifeboat \<and>
        \<not> hasCashed s \<and> 0 \<le> activeBetRef s * collected s \<and>
        balance (step L ev s) = balance s + activeBetRef s * collected s)"
proof (cases ev)
  case (Frame e)
  have pay: "0 \<le> activeBetRef s * collected s"
    using assms(1,2) activeBetRef_nonneg [of s] by (simp add: ledgerInv_def seqInv_def)
  show ?thesis
  proof (cases "phase s = Running")
    case False
    with Frame show ?thesis by (simp add: loop_char)
  next
    case True
    with Frame pay show ?thesis
      by (cases "collide L (t_ts e) (scroll (advance (t_ts e) s)) (obstacles s)")
         (simp_all add: loop_char)
  qed
next
  case (AnimDone e)
  show ?thesis
  proof (cases "pendingStart s")
    case Nil
    with AnimDone show ?thesis by (simp add: animDone_def)
  next
    case (Cons stake rest)
    with assms(2) have st: "1 \<le> stake" "stake \<le> balance s" "phase s = Betting"
      by (simp_all add: ledgerInv_def)
    have m: "joinedRef s = joined s" using assms(3) AnimDone by (simp add: betMirrored_def)
    have f: "phase (beginRound L e stake (s\<lparr>pendingStart := rest\<rparr>)) = Running"
      "balance (beginRound L e stake (s\<lparr>pendingStart := rest\<rparr>)) =
         (if joinedRef s then balance s - stake else balance s)"
      by (simp_all add: beginRound_def planNextMultiplier_def Let_def)
    show ?thesis
      using AnimDone Cons st m f by (simp add: animDone_def)
  qed
next
  case CashOut
  have "0 \<le> activeBetRefCurrent s * collectedRef s"
    using assms(1,2) by (simp add: ledgerInv_def seqInv_def)
  with CashOut show ?thesis by (simp add: cashOutNow_char)
next
  case BetTimeout
  show ?thesis
  proof (cases "betTimers s")
    case False
    with BetTimeout show ?thesis by simp
  next
    case True
    let ?c = "clearBettingTimers s"
    have "balance (startRound ?c) = balance s"
    proof (cases "closBalance ?c < 1 \<or> phaseRef ?c = Running")
      case True
      then show ?thesis
        by (auto simp: startRound_def Let_def startBettingPhase_def clearBettingTimers_def)
    next
      case False
      then have "\<not> closBalance ?c < 1" "phaseRef ?c \<noteq> Running" by simp_all
      from startRound_stake [OF this] obtain stake where
        "startRound ?c = (clearBettingTimers ?c)\<lparr>
             obstacles := map (\<lambda>ob. ob\<lparr>ob_state := ObBreaking\<rparr>) (obstacles ?c),
             settleTimers := settleTimers ?c + 1,
             pendingStart := pendingStart ?c @ [stake]\<rparr>" by blast
      then show ?thesis by (simp add: clearBettingTimers_def)
    qed
    with BetTimeout True show ?thesis by simp
  qed
qed (simp_all add: action_defs Let_def)

lemma roundTrace_wf: "wf_trace L0 init roundTrace"
  apply (simp add: roundTrace_def frames_def upt_rec)
  apply (simp add: loop_char frame_defs eval_defs unit_draw_def betMirrored_def)
  done





lemma idleCount_filter: "idleCount (filter P xs) \<le> idleCount xs"
  by (induction xs) (simp_all add: idleCount_def)

lemma idleCount_markBreaking: "idleCount (markBreaking ob xs) \<le> idleCount xs"
  by (induction xs) (simp_all add: idleCount_def markBreaking_def)

lemma idleCount_all_breaking: "idleCount (map (\<lambda>ob. ob\<lparr>ob_state := ObBreaking\<rparr>) xs) = 0"
  by (induction xs) (simp_all add: idleCount_def)

lemma idleCount_snoc:
  "idleCount (xs @ [ob]) = idleCount xs + (if ob_state ob = ObIdle then 1 else 0)"
  by (simp add: idleCount_def)

lemma idle_spawns:
  assumes "idleCount U \<le> 2"
  shows "idleCount (updated (fst (replacementSpawn L e b
            (\<lparr>updated = U, needCommit = c, spawnedThisFrame = False\<rparr>, s)))) \<le> 2"
    and "idleCount (updated (fst (cadenceSpawns L e
            (idleCount (updated (fst (replacementSpawn L e b
               (\<lparr>updated = U, needCommit = c, spawnedThisFrame = False\<rparr>, s)))))
            (replacementSpawn L e b
               (\<lparr>updated = U, needCommit = c, spawnedThisFrame = False\<rparr>, s))))) \<le> 2"
proof -
  show "idleCount (updated (fst (replacementSpawn L e b
            (\<lparr>updated = U, needCommit = c, spawnedThisFrame = False\<rparr>, s)))) \<le> 2"
    using assms by (simp add: replacementSpawn_def spawnInto_char idleCount_snoc)
  show "idleCount (updated (fst (cadenceSpawns L e
            (idleCount (updated (fst (replacementSpawn L e b
               (\<lparr>updated = U, needCommit = c, spawnedThisFrame = False\<rparr>, s)))))
            (replacementSpawn L e b
               (\<lparr>updated = U, needCommit = c, spawnedThisFrame = False\<rparr>, s))))) \<le> 2"
    using assms
    by (simp add: spawns_char [of "\<lparr>updated = U, needCommit = c, spawnedThisFrame = False\<rparr>"]
          spawnsNow_def idleCount_snoc)
qed

lemma one_spawn_path:
  "replacementSpawn L e b (\<lparr>updated = U, needCommit = c, spawnedThisFrame = False\<rparr>, s) =
      (\<lparr>updated = U, needCommit = c, spawnedThisFrame = False\<rparr>, s) \<or>
   cadenceSpawns L e n
      (replacementSpawn L e b (\<lparr>updated = U, needCommit = c, spawnedThisFrame = False\<rparr>, s)) =
   replacementSpawn L e b (\<lparr>updated = U, needCommit = c, spawnedThisFrame = False\<rparr>, s)"
  by (simp add: replacementSpawn_def spawnInto_char cadenceSpawns_once)

lemma idle_frameTail:
  assumes "idleCount U \<le> 2"
  shows "idleCount (obstacles (frameTail L e b U s)) \<le> 2"
proof -
  have "idleCount (U @ (if spawnsNow b U s then [newOb L e s] else [])) \<le> 2"
    using assms by (auto simp: idleCount_snoc spawnsNow_def split: if_splits)
  then show ?thesis
    using idleCount_filter [of "onScreen (scroll s)" "U @ (if spawnsNow b U s then [newOb L e s] else [])"]
    by (simp add: frameTail_def Let_def)
qed

lemma idle_step:
  assumes "idleCount (obstacles s) \<le> 2"
  shows "idleCount (obstacles (step L ev s)) \<le> 2"
proof (cases ev)
  case (Frame e)
  have m: "idleCount (markBreaking ob (obstacles s)) \<le> 2" for ob
    using idleCount_markBreaking [of ob "obstacles s"] assms by linarith
  show ?thesis
    using assms m by (simp add: Frame loop_char idle_frameTail split: Hit.splits)
next
  case (AnimDone e)
  show ?thesis
    using assms
    by (simp add: AnimDone animDone_def beginRound_def Let_def planNextMultiplier_def
          idleCount_def mkObstacle_def split: list.splits)
next
  case BetTimeout
  show ?thesis
    using assms
    by (simp add: BetTimeout startRound_def Let_def startBettingPhase_def clearBettingTimers_def
          idleCount_all_breaking)
next
  case SettleTimer
  show ?thesis
    using assms idleCount_filter [of "\<lambda>ob. ob_state ob \<noteq> ObBreaking" "obstacles s"]
    by (simp add: SettleTimer settleOld_def)
next
  case (RemovalTimer i)
  show ?thesis
    using assms idleCount_filter [of "\<lambda>k. ob_id k \<noteq> i" "obstacles s"]
    by (simp add: RemovalTimer removalTimer_def)
qed (use assms in \<open>simp_all add: action_defs Let_def\<close>)

lemma idle_run:
  "idleCount (obstacles s) \<le> 2 \<Longrightarrow> idleCount (obstacles (run L es s)) \<le> 2"
  by (induction es arbitrary: s) (simp_all add: idle_step)

lemma one_plan_per_frame: "nextIndex (loop L e s) \<le> nextIndex s + 1"
  by (simp add: loop_char frameTail_def Let_def split: Hit.splits)

lemma one_obstacle_per_frame: "length (obstacles (loop L e s)) \<le> length (obstacles s) + 1"
proof -
  have "length (obstacles (frameTail L e b U s')) \<le> length U + 1" for b U s'
    using length_filter_le [of "onScreen (scroll s')" "U @ [newOb L e s']"]
      length_filter_le [of "onScreen (scroll s')" U]
    by (simp add: frameTail_def Let_def del: length_filter_le)
  from this [of _ "obstacles s"] this [of _ "markBreaking _ (obstacles s)"]
  show ?thesis
    by (simp add: loop_char markBreaking_def split: Hit.splits)
qed

lemma preHit_reached: "run L0 (warmup @ frames 0 40) init = preHit"
  apply (simp add: frames_def upt_rec preHit_def)
  apply (simp add: loop_char frame_defs eval_defs)
  done

lemma passed_mono: "passed L sc ob \<Longrightarrow> sc \<le> sc' \<Longrightarrow> passed L sc' ob"
  by (simp add: passed_def)

lemma frameDt_nonneg:
  "(case lastTs s of None \<Rightarrow> True | Some l \<Rightarrow> l \<le> ts) \<Longrightarrow> 0 \<le> frameDt ts s"
  by (simp add: frameDt_def Let_def split: option.splits)

lemma collide_safe_order:
  assumes "collide L ts sc obs = SafeHit ob" "sorted_wrt inOrder obs"
  shows "list_all (\<lambda>p. ob_state p \<noteq> ObIdle \<or> ob_multiplier ob \<le> ob_multiplier p \<or> passed L sc p) obs"
  using assms
proof (induction obs)
  case Nil
  then show ?case by simp
next
  case (Cons p rest)
  have sr: "sorted_wrt inOrder rest" and ord: "\<forall>q \<in> set rest. inOrder p q"
    using Cons.prems(2) by simp_all
  show ?case
  proof (cases "ob_state p \<noteq> ObIdle")
    case True
    with Cons.prems(1) have "collide L ts sc rest = SafeHit ob" by simp
    from Cons.IH [OF this sr] True show ?thesis by simp
  next
    case idle: False
    show ?thesis
    proof (cases "\<not> fresh ts p \<and> contact L sc p")
      case True
      with idle Cons.prems(1) have "ob = p" by (simp split: if_splits)
      with ord show ?thesis by (simp add: list_all_iff inOrder_def)
    next
      case False
      with idle Cons.prems(1) have c: "collide L ts sc rest = SafeHit ob" by auto
      from collide_SafeHit [OF c] have ob: "ob \<in> set rest" "contact L sc ob" "\<not> fresh ts ob"
        by simp_all
      with ord have o: "inOrder p ob" by simp
      from o ob(3) have "\<not> fresh ts p" by (simp add: fresh_def inOrder_def)
      with False have "\<not> contact L sc p" by simp
      with o ob(2) have "passed L sc p"
        by (simp add: contact_def passed_def inOrder_def Let_def consts_defs)
      with Cons.IH [OF c sr] show ?thesis by simp
    qed
  qed
qed

lemma sorted_markBreaking: "sorted_wrt inOrder (markBreaking ob xs) = sorted_wrt inOrder xs"
proof -
  have "inOrder (if ob_id a = ob_id ob then a\<lparr>ob_state := ObBreaking\<rparr> else a)
          (if ob_id b = ob_id ob then b\<lparr>ob_state := ObBreaking\<rparr> else b) = inOrder a b" for a b
    by (simp add: inOrder_def)
  then show ?thesis
    by (simp add: markBreaking_def sorted_wrt_map)
qed

lemma sorted_all_breaking:
  "sorted_wrt inOrder (map (\<lambda>ob. ob\<lparr>ob_state := ObBreaking\<rparr>) xs) = sorted_wrt inOrder xs"
proof -
  have "inOrder (a\<lparr>ob_state := ObBreaking\<rparr>) (b\<lparr>ob_state := ObBreaking\<rparr>) = inOrder a b" for a b
    by (simp add: inOrder_def)
  then show ?thesis
    by (simp add: sorted_wrt_map)
qed

lemma list_all_markBreaking_fields:
  "list_all (\<lambda>p. P (ob_multiplier p) (ob_x p) (ob_bornAt p) (ob_width p)) (markBreaking ob xs) =
   list_all (\<lambda>p. P (ob_multiplier p) (ob_x p) (ob_bornAt p) (ob_width p)) xs"
  by (induction xs) (simp_all add: markBreaking_def)

lemma ahead_markBreaking:
  assumes "list_all (\<lambda>p. ob_state p \<noteq> ObIdle \<or> c \<le> ob_multiplier p \<or> passed L sc p) xs"
  shows "list_all (\<lambda>p. ob_state p \<noteq> ObIdle \<or> c \<le> ob_multiplier p \<or> passed L sc p)
           (markBreaking ob xs)"
  using assms by (induction xs) (simp_all add: markBreaking_def passed_def)

lemma orderInv_frameTail:
  assumes s: "0 \<le> speed s" "collected s \<le> plannedMult s" "seqInv s" "unit_draw (t_mult e)"
    and U: "list_all (\<lambda>ob. ob_multiplier ob \<le> plannedMult s \<and>
                ob_x ob \<le> spawnWorldXFor s 2 (shipRight L) (scroll s)) U"
      "sorted_wrt inOrder U" "list_all (\<lambda>ob. ob_bornAt ob \<le> t_ts e) U"
      "list_all (ahead L s) U"
  shows "orderInv L (frameTail L e b U s)"
proof -
  define pv where "pv = planValue (t_mult e) (nextIndex s) (plannedMult s)"
  define bound where "bound = spawnWorldXFor s 2 (shipRight L) (scroll s)"
  have g: "plannedMult s \<le> pv"
    using seqInv_spawn(1) [OF s(3,4)] by (simp add: pv_def)
  have new: "ob_multiplier (newOb L e s) = pv" "ob_x (newOb L e s) = bound"
    "ob_bornAt (newOb L e s) = t_ts e"
    by (simp_all add: pv_def bound_def)
  have U1: "\<forall>p \<in> set U. ob_multiplier p \<le> plannedMult s \<and> ob_x p \<le> bound \<and>
      ob_bornAt p \<le> t_ts e \<and> ahead L s p"
    using U(1,3,4) by (simp add: list_all_iff bound_def)
  show ?thesis
  proof (cases "spawnsNow b U s")
    case False
    have f: "speed (frameTail L e b U s) = speed s" "collected (frameTail L e b U s) = collected s"
      "scroll (frameTail L e b U s) = scroll s" "plannedMult (frameTail L e b U s) = plannedMult s"
      "obstacles (frameTail L e b U s) = filter (onScreen (scroll s)) U"
      using False by (simp_all add: frameTail_def Let_def)
    have a: "ahead L (frameTail L e b U s) = ahead L s"
      by (rule ext) (simp add: ahead_def f)
    have x: "spawnWorldXFor (frameTail L e b U s) 2 (shipRight L) (scroll s) = bound"
      by (simp add: spawnWorldXFor_def bound_def f)
    show ?thesis
      unfolding orderInv_def f a x
      using s(1,2) U1 U(2) by (simp add: list_all_iff sorted_wrt_filter)
  next
    case True
    have f: "speed (frameTail L e b U s) = speed s" "collected (frameTail L e b U s) = collected s"
      "scroll (frameTail L e b U s) = scroll s" "plannedMult (frameTail L e b U s) = pv"
      "obstacles (frameTail L e b U s) = filter (onScreen (scroll s)) (U @ [newOb L e s])"
      using True by (simp_all add: frameTail_def Let_def pv_def)
    have a: "ahead L (frameTail L e b U s) = ahead L s"
      by (rule ext) (simp add: ahead_def f)
    have x: "spawnWorldXFor (frameTail L e b U s) 2 (shipRight L) (scroll s) = bound"
      by (simp add: spawnWorldXFor_def bound_def f)
    have so: "sorted_wrt inOrder (U @ [newOb L e s])"
    proof -
      have "inOrder p (newOb L e s)" if "p \<in> set U" for p
        using U1 that g unfolding inOrder_def new by fastforce
      with U(2) show ?thesis by (simp add: sorted_wrt_append)
    qed
    have an: "ahead L s (newOb L e s)"
      using s(2) g unfolding ahead_def new by linarith
    have U2: "\<forall>p \<in> set (U @ [newOb L e s]). ob_multiplier p \<le> pv \<and> ob_x p \<le> bound \<and> ahead L s p"
    proof
      fix p assume p: "p \<in> set (U @ [newOb L e s])"
      show "ob_multiplier p \<le> pv \<and> ob_x p \<le> bound \<and> ahead L s p"
      proof (cases "p \<in> set U")
        case True
        with U1 g show ?thesis by fastforce
      next
        case False
        with p have "p = newOb L e s" by simp
        with an show ?thesis by (simp only: new) simp
      qed
    qed
    have c: "collected s \<le> pv" using s(2) g by linarith
    show ?thesis
      unfolding orderInv_def f a x
      using s(1) c U2 sorted_wrt_filter [OF so, of "onScreen (scroll s)"]
      by (simp add: list_all_iff)
  qed
qed

lemma passed_no_contact: "passed L sc ob \<Longrightarrow> \<not> contact L sc ob"
  by (simp add: passed_def contact_def Let_def)

lemma orderInv_advance:
  assumes "orderInv L s" "case lastTs s of None \<Rightarrow> True | Some l \<Rightarrow> l \<le> ts"
  shows "orderInv L (advance ts s)"
    and "scroll s \<le> scroll (advance ts s)"
proof -
  have v: "0 \<le> speed s" using assms(1) by (simp add: orderInv_def)
  from frameDt_nonneg [OF assms(2)] v
  show sc: "scroll s \<le> scroll (advance ts s)" by simp
  have a: "ahead L (advance ts s) p" if "ahead L s p" for p
    using that passed_mono [OF _ sc, of L p] by (auto simp: ahead_def)
  have x: "spawnWorldXFor s 2 (shipRight L) (scroll s)
      \<le> spawnWorldXFor (advance ts s) 2 (shipRight L) (scroll (advance ts s))"
    using sc by (simp add: spawnWorldXFor_def)
  have "\<forall>p \<in> set (obstacles s). ob_multiplier p \<le> plannedMult s \<and>
      ob_x p \<le> spawnWorldXFor (advance ts s) 2 (shipRight L) (scroll (advance ts s)) \<and>
      ahead L (advance ts s) p"
    using assms(1) a x unfolding orderInv_def list_all_iff by fastforce
  with assms(1) v show "orderInv L (advance ts s)"
    unfolding orderInv_def list_all_iff by simp
qed

lemma safeHit_grows:
  assumes "orderInv L s" "case lastTs s of None \<Rightarrow> True | Some l \<Rightarrow> l \<le> ts"
    "collide L ts (scroll (advance ts s)) (obstacles s) = SafeHit ob"
  shows "collected s \<le> ob_multiplier ob"
proof -
  from collide_SafeHit [OF assms(3)]
  have ob: "ob \<in> set (obstacles s)" "ob_state ob = ObIdle" "contact L (scroll (advance ts s)) ob"
    by simp_all
  from assms(1) ob(1) have "ahead L s ob" by (simp add: orderInv_def list_all_iff)
  with ob(2) have "collected s \<le> ob_multiplier ob \<or> passed L (scroll s) ob"
    by (simp add: ahead_def)
  moreover have "\<not> passed L (scroll s) ob"
    using passed_mono [OF _ orderInv_advance(2) [OF assms(1,2)], of L ob]
      passed_no_contact [of L "scroll (advance ts s)" ob] ob(3) by blast
  ultimately show ?thesis by blast
qed

lemma orderInv_loop:
  assumes "orderInv L s" "seqInv s" "wf_event s (Frame e)"
  shows "orderInv L (loop L e s)"
proof (cases "phase s = Running")
  case False
  with assms(1) show ?thesis by (simp add: loop_char)
next
  case True
  define s1 where "s1 = advance (t_ts e) s"
  have ts: "case lastTs s of None \<Rightarrow> True | Some l \<Rightarrow> l \<le> t_ts e"
    and born: "list_all (\<lambda>ob. ob_bornAt ob \<le> t_ts e) (obstacles s)"
    and ud: "unit_draw (t_mult e)"
    using assms(3) by simp_all
  have i1: "orderInv L s1"
    unfolding s1_def by (rule orderInv_advance(1) [OF assms(1) ts])
  have q1: "seqInv s1" using assms(2) by (simp add: s1_def)
  have o1: "obstacles s1 = obstacles s" by (simp add: s1_def)
  show ?thesis
  proof (cases "collide L (t_ts e) (scroll s1) (obstacles s)")
    case NoHit
    have "orderInv L (frameTail L e False (obstacles s) s1)"
      using i1 [unfolded orderInv_def o1] q1 ud born
      by (intro orderInv_frameTail) simp_all
    with True NoHit show ?thesis by (simp add: loop_char s1_def)
  next
    case CrashHit
    have "ahead L (crashOutcome (t_life e) s1) = ahead L s1"
      by (rule ext) (simp add: ahead_def)
    then have "orderInv L (crashOutcome (t_life e) s1)"
      using i1 by (simp add: orderInv_def spawnWorldXFor_def)
    with True CrashHit show ?thesis by (simp add: loop_char s1_def)
  next
    case (SafeHit ob)
    define s2 where "s2 = safeHitEffects ob s1"
    from collide_SafeHit [OF SafeHit] have ob: "ob \<in> set (obstacles s)" by simp
    have m: "ob_multiplier ob \<le> plannedMult s" "1 \<le> ob_multiplier ob"
      using assms(1,2) ob by (simp_all add: orderInv_def seqInv_def list_all_iff)
    have q2: "seqInv s2"
      using q1 m(2) by (simp add: seqInv_def s2_def)
    have so: "sorted_wrt inOrder (obstacles s)"
      using assms(1) by (simp add: orderInv_def)
    have f2: "speed s2 = speed s1" "plannedMult s2 = plannedMult s" "scroll s2 = scroll s1"
      "collected s2 = ob_multiplier ob"
      by (simp_all add: s2_def s1_def)
    have x2: "spawnWorldXFor s2 2 (shipRight L) (scroll s2) =
        spawnWorldXFor s1 2 (shipRight L) (scroll s1)"
      by (simp add: spawnWorldXFor_def f2)
    have "ahead L s2 =
        (\<lambda>p. ob_state p \<noteq> ObIdle \<or> ob_multiplier ob \<le> ob_multiplier p \<or> passed L (scroll s1) p)"
      by (rule ext) (simp add: ahead_def f2)
    then have a2: "list_all (ahead L s2) (markBreaking ob (obstacles s))"
      using ahead_markBreaking [OF collide_safe_order [OF SafeHit so], of ob]
      by simp
    have b2: "list_all (\<lambda>p. ob_bornAt p \<le> t_ts e) (markBreaking ob (obstacles s))"
      using list_all_markBreaking_fields [of "\<lambda>m x b w. b \<le> t_ts e" ob "obstacles s"] born
      by simp
    have p1: "plannedMult s1 = plannedMult s" by (simp add: s1_def)
    have c1: "list_all (\<lambda>p. ob_multiplier p \<le> plannedMult s \<and>
          ob_x p \<le> spawnWorldXFor s1 2 (shipRight L) (scroll s1)) (obstacles s)"
      using i1 [unfolded orderInv_def o1 p1] by blast
    have c2: "list_all (\<lambda>p. ob_multiplier p \<le> plannedMult s2 \<and>
          ob_x p \<le> spawnWorldXFor s2 2 (shipRight L) (scroll s2)) (markBreaking ob (obstacles s))"
      unfolding x2 f2(2)
      using list_all_markBreaking_fields [of "\<lambda>m x b w. m \<le> plannedMult s \<and>
            x \<le> spawnWorldXFor s1 2 (shipRight L) (scroll s1)" ob "obstacles s"] c1
      by blast
    have "orderInv L (frameTail L e True (markBreaking ob (obstacles s)) s2)"
      using i1 q2 ud m(1) a2 b2 c2 so
      by (intro orderInv_frameTail) (simp_all add: f2 orderInv_def sorted_markBreaking)
    with True SafeHit show ?thesis by (simp add: loop_char s1_def s2_def)
  qed
qed

lemma orderInv_beginRound:
  assumes "unit_draw (s_mult1 e)" "unit_draw (s_mult2 e)" "s_now1 e \<le> s_now2 e"
  shows "orderInv L (beginRound L e stake s)"
proof -
  define m1 where "m1 = planValue (s_mult1 e) 1 1"
  define m2 where "m2 = planValue (s_mult2 e) 2 m1"
  define v where "v = max 60 ((laneWidth L - 12 - shipRight L) / 4) * SPEED_MULTIPLIER"
  have g1: "1 \<le> m1 \<and> twoDecimals m1 \<and> m1 \<le> 21 / 10"
    using planValue_grows [OF assms(1), of 1 1] by (simp add: m1_def)
  then have g2: "m1 \<le> m2"
    using planValue_grows [OF assms(2), of 2 m1] by (simp add: m2_def)
  have v: "0 \<le> v" by (simp add: v_def SPEED_MULTIPLIER_def)
  have n: "speed (beginRound L e stake s) = v" "plannedMult (beginRound L e stake s) = m2"
    "collected (beginRound L e stake s) = 1" "scroll (beginRound L e stake s) = 0"
    "obstacles (beginRound L e stake s) =
       [mkObstacle (s_id1 e) (shipRight L - ICE_LEFT_PAD + v * (1 * HIT_INTERVAL)) m1
          (s_ice1 e < icebergChance) (s_now1 e),
        mkObstacle (s_id2 e) (shipRight L - ICE_LEFT_PAD + v * (2 * HIT_INTERVAL)) m2
          (s_ice2 e < icebergChance) (s_now2 e)]"
    by (simp_all add: beginRound_def planNextMultiplier_def Let_def m1_def m2_def v_def
        spawnWorldXFor_def numeral_2_eq_2)
  have x: "spawnWorldXFor (beginRound L e stake s) 2 (shipRight L) 0 =
      shipRight L - ICE_LEFT_PAD + v * (2 * HIT_INTERVAL)"
    by (simp add: spawnWorldXFor_def n(1))
  have a: "ahead L (beginRound L e stake s) (mkObstacle i wx m ice born) \<longleftrightarrow>
      1 \<le> m \<or> passed L 0 (mkObstacle i wx m ice born)" for i wx m ice born
    by (simp add: ahead_def n mkObstacle_def)
  show ?thesis
    unfolding orderInv_def n x
    using g1 g2 v assms(3) a
    by (simp add: inOrder_def mkObstacle_def HIT_INTERVAL_def mult_left_mono)
qed

lemma orderInv_kept:
  assumes "orderInv L s" "speed s' = speed s" "collected s' = collected s"
    "plannedMult s' = plannedMult s" "scroll s' = scroll s"
    "obstacles s' = obstacles s \<or> (\<exists>P. obstacles s' = filter P (obstacles s)) \<or>
     obstacles s' = map (\<lambda>ob. ob\<lparr>ob_state := ObBreaking\<rparr>) (obstacles s)"
  shows "orderInv L s'"
proof -
  have a: "ahead L s' = ahead L s"
    by (rule ext) (simp add: ahead_def assms)
  have x: "spawnWorldXFor s' 2 (shipRight L) (scroll s) = spawnWorldXFor s 2 (shipRight L) (scroll s)"
    by (simp add: spawnWorldXFor_def assms)
  have b: "list_all (ahead L s) (map (\<lambda>ob. ob\<lparr>ob_state := ObBreaking\<rparr>) xs)" for xs
    by (induction xs) (simp_all add: ahead_def)
  from assms(6) consider "obstacles s' = obstacles s"
    | P where "obstacles s' = filter P (obstacles s)"
    | "obstacles s' = map (\<lambda>ob. ob\<lparr>ob_state := ObBreaking\<rparr>) (obstacles s)"
    by blast
  then show ?thesis
  proof cases
    case 1
    with assms(1) show ?thesis
      unfolding orderInv_def a x assms(2,3,4,5) by simp
  next
    case 2
    with assms(1) show ?thesis
      unfolding orderInv_def a x assms(2,3,4,5)
      by (simp add: sorted_wrt_filter list_all_iff)
  next
    case 3
    with assms(1) show ?thesis
      unfolding orderInv_def a x assms(2,3,4,5)
      by (simp add: sorted_all_breaking b) (simp add: list_all_iff)
  qed
qed

lemma orderInv_step:
  assumes "orderInv L s" "seqInv s" "wf_event s ev"
  shows "orderInv L (step L ev s)"
proof (cases ev)
  case (Frame e)
  with assms orderInv_loop show ?thesis by simp
next
  case (AnimDone e)
  have "orderInv L (beginRound L e stake (s\<lparr>pendingStart := rest\<rparr>))" for stake rest
    using AnimDone assms(3) by (intro orderInv_beginRound) simp_all
  with AnimDone assms(1) show ?thesis
    by (simp add: animDone_def split: list.splits)
next
  case SettleTimer
  show ?thesis
    unfolding SettleTimer
    by (rule orderInv_kept [OF assms(1)]) (auto simp: action_defs)
next
  case (RemovalTimer i)
  show ?thesis
    unfolding RemovalTimer
    by (rule orderInv_kept [OF assms(1)]) (auto simp: action_defs)
next
  case (SetBet x)
  show ?thesis
    unfolding SetBet
    by (rule orderInv_kept [OF assms(1)]) (simp_all add: action_defs Let_def)
qed (rule orderInv_kept [OF assms(1)]; simp add: action_defs Let_def)+

lemma orderInv_init: "orderInv L init"
  by (simp add: orderInv_def init_def)

lemma order_run:
  assumes "orderInv L s \<and> seqInv s \<and> ledgerInv s" "wf_trace L s es"
  shows "orderInv L (run L es s) \<and> seqInv (run L es s) \<and> ledgerInv (run L es s)"
  using assms
proof (induction es arbitrary: s)
  case Nil
  then show ?case by simp
next
  case (Cons ev es)
  then have w: "wf_event s ev" "wf_trace L (step L ev s) es" by simp_all
  have i: "seqInv s \<and> ledgerInv s" "orderInv L s" "seqInv s" using Cons.prems(1) by simp_all
  have "orderInv L (step L ev s) \<and> seqInv (step L ev s) \<and> ledgerInv (step L ev s)"
    using invs_step [OF i(1) w(1), of L] orderInv_step [OF i(2,3) w(1)] by simp
  from Cons.IH [OF this w(2)] show ?case by simp
qed

lemma collected_step:
  assumes "orderInv L s" "ledgerInv s" "wf_event s ev"
  shows "collected (step L ev s) = collected s \<or>
     (\<exists>e stake rest. ev = AnimDone e \<and> pendingStart s = stake # rest \<and> phase s = Betting \<and>
        phase (step L ev s) = Running \<and> collected (step L ev s) = 1) \<or>
     (\<exists>e ob. ev = Frame e \<and> phase s = Running \<and> phase (step L ev s) = Running \<and>
        collide L (t_ts e) (scroll (advance (t_ts e) s)) (obstacles s) = SafeHit ob \<and>
        ob \<in> set (obstacles s) \<and> \<not> ob_iceberg ob \<and> ob_state ob = ObIdle \<and>
        contact L (scroll (advance (t_ts e) s)) ob \<and>
        collected s \<le> ob_multiplier ob \<and> collected (step L ev s) = ob_multiplier ob)"
proof (cases ev)
  case (Frame e)
  show ?thesis
  proof (cases "phase s = Running")
    case False
    then show ?thesis by (simp add: Frame loop_char)
  next
    case True
    have ts: "case lastTs s of None \<Rightarrow> True | Some l \<Rightarrow> l \<le> t_ts e"
      using assms(3) Frame by simp
    show ?thesis
    proof (cases "collide L (t_ts e) (scroll (advance (t_ts e) s)) (obstacles s)")
      case NoHit
      with True show ?thesis by (simp add: Frame loop_char)
    next
      case CrashHit
      with True show ?thesis by (simp add: Frame loop_char)
    next
      case (SafeHit ob)
      note g = safeHit_grows [OF assms(1) ts SafeHit]
      note c = collide_SafeHit [OF SafeHit]
      have "phase (step L ev s) = Running" "collected (step L ev s) = ob_multiplier ob"
        using True SafeHit by (simp_all add: Frame loop_char)
      with True SafeHit g c Frame show ?thesis by blast
    qed
  qed
next
  case (AnimDone e)
  show ?thesis
  proof (cases "pendingStart s")
    case Nil
    then show ?thesis by (simp add: AnimDone animDone_def)
  next
    case (Cons stake rest)
    with assms(2) have "phase s = Betting" by (simp add: ledgerInv_def)
    moreover have "phase (step L ev s) = Running" "collected (step L ev s) = 1"
      using Cons
      by (simp_all add: AnimDone animDone_def beginRound_def Let_def planNextMultiplier_def)
    ultimately show ?thesis using Cons AnimDone by blast
  qed
qed (simp_all add: action_defs Let_def)

lemma preHit_wf: "wf_trace L0 init (warmup @ frames 0 40)"
  apply (simp add: frames_def upt_rec)
  apply (simp add: loop_char frame_defs eval_defs unit_draw_def betMirrored_def)
  done















section \<open>The claims\<close>

text \<open>
  Claim C1. The guard of \<open>cashOutNow\<close> is not one-shot in the code: it reads refs that the
  frame callback and \<open>cashOutNow\<close> itself leave behind the cells. A cash-out that arrives
  after the frame that hit the iceberg and before the next commit still finds
  \<open>phaseRef\<close> running and \<open>hasCashedRef\<close> unset: it is paid on top of the lifeboat credit
  (990, 1002, 1014), and it is paid after a crash (990 to 1002 with the phase already
  crashed). Called twice with no commit in between, \<open>cashOutNow\<close> pays twice. Once the
  mirror effects have run, the second attempt is refused.
\<close>

theorem cashOut_stale_guard:
  "phase preCrash = Running \<and> joined preCrash \<and> \<not> hasCashed preCrash \<and>
   balance preCrash = 990 \<and>
   phase (loop L0 luckyTick preCrash) = Lifeboat \<and>
   balance (loop L0 luckyTick preCrash) = 1002 \<and>
   balance (cashOutNow (loop L0 luckyTick preCrash)) = 1014 \<and>
   phase (loop L0 (tickEnv 4000) preCrash) = Crashed \<and>
   balance (loop L0 (tickEnv 4000) preCrash) = 990 \<and>
   balance (cashOutNow (loop L0 (tickEnv 4000) preCrash)) = 1002 \<and>
   balance (cashOutNow preCrash) = 1002 \<and>
   balance (cashOutNow (cashOutNow preCrash)) = 1014 \<and>
   cashOutNow (mirrorEffects (cashOutNow preCrash)) = mirrorEffects (cashOutNow preCrash) \<and>
   cashOutNow (mirrorEffects (loop L0 luckyTick preCrash)) = mirrorEffects (loop L0 luckyTick preCrash)"
  by (simp add: preCrash_def luckyTick_def loop_char frame_defs eval_defs cashOutNow_char)



text \<open>
  Claim C6. With a balance below 1 in the betting window, \<open>placeBet\<close> does not refuse: the
  clamp has already raised the stake to 1, so the test \<open>stake < 1\<close> never fires; the player
  is joined with a stake of 1 that exceeds the balance.
\<close>

theorem placeBet_without_balance:
  "placeBet broke = broke\<lparr>joined := True, activeBet := Some 1, bet := 1, message := MsgBetPlaced 1\<rparr> \<and>
   balance broke < 1 \<and> phase broke = Betting \<and> joined (placeBet broke) \<and>
   message (placeBet broke) \<noteq> MsgInsufficientBet \<and>
   \<not> (1 \<le> activeBetRef (placeBet broke) \<and> activeBetRef (placeBet broke) \<le> balance broke)"
  by (simp add: broke_def init_def placeBet_def clamp_def activeBetRef_def)

text \<open>
  Claim C10. No state reached from the initial one has the phase \<open>Cashed\<close>: a step keeps
  the phase or sets it to betting, running, crashed or lifeboat, and \<open>cashOutNow\<close> changes
  nothing but the balance, \<open>hasCashed\<close> and the message.
\<close>

theorem phase_never_cashed:
  "phase (run L es init) \<noteq> Cashed \<and>
   (phase (step L ev s) = phase s \<or> phase (step L ev s) \<in> {Betting, Running, Crashed, Lifeboat}) \<and>
   phase (cashOutNow s) = phase s \<and>
   cashOutNow s = s\<lparr>balance := balance (cashOutNow s), hasCashed := hasCashed (cashOutNow s),
                    message := message (cashOutNow s)\<rparr>"
  using run_phase [of init L es] step_phase [of L ev s]
  by (simp add: init_def cashOutNow_char)

text \<open>
  Claim C2, amended. In a sequence planned from the reset state, every value has two
  decimals; the first lies in [1.10, 1.30]; the second to fifth are at most 2.10 and not
  below their predecessor, and strictly above it as long as the predecessor is below
  2.10; from the sixth on each value exceeds its predecessor by at least 1.00.
\<close>

theorem multiplier_sequence:
  assumes "list_all unit_draw rs" and "nextIndex s = 1" and "i < length rs"
  shows "twoDecimals (planMany rs s ! i) \<and>
     (i = 0 \<longrightarrow> 11 / 10 \<le> planMany rs s ! i \<and> planMany rs s ! i \<le> 13 / 10) \<and>
     (1 \<le> i \<and> i \<le> 4 \<longrightarrow>
        planMany rs s ! i \<le> 21 / 10 \<and>
        planMany rs s ! (i - 1) \<le> planMany rs s ! i \<and>
        (planMany rs s ! (i - 1) < 21 / 10 \<longrightarrow> planMany rs s ! (i - 1) < planMany rs s ! i)) \<and>
     (5 \<le> i \<longrightarrow> planMany rs s ! (i - 1) + 1 \<le> planMany rs s ! i)"
proof -
  have pre: "1 \<le> nextIndex s" "2 \<le> nextIndex s \<longrightarrow> twoDecimals (plannedMult s)"
    "2 \<le> nextIndex s \<and> nextIndex s \<le> 5 \<longrightarrow> plannedMult s \<le> 21 / 10"
    using assms(2) by simp_all
  note n = planMany_nth [OF assms(1) assms(3) pre]
  have prev: "(plannedMult s # planMany rs s) ! i = planMany rs s ! (i - 1)" if "1 \<le> i"
    using that by (cases i) simp_all
  have a: "twoDecimals (planMany rs s ! i)" using n by blast
  have b: "11 / 10 \<le> planMany rs s ! i \<and> planMany rs s ! i \<le> 13 / 10" if "i = 0"
    using n that assms(2) by simp
  have c: "planMany rs s ! i \<le> 21 / 10 \<and>
        planMany rs s ! (i - 1) \<le> planMany rs s ! i \<and>
        (planMany rs s ! (i - 1) < 21 / 10 \<longrightarrow> planMany rs s ! (i - 1) < planMany rs s ! i)"
    if "1 \<le> i" "i \<le> 4"
    using n that assms(2) prev by simp
  have d: "planMany rs s ! (i - 1) + 1 \<le> planMany rs s ! i" if "5 \<le> i"
    using n that assms(2) prev by simp
  show ?thesis
    using a b c d by blast
qed

theorem multiplier_sequence_witness:
  "list_all unit_draw cappedDraws \<and> nextIndex init = 1 \<and> 5 < length cappedDraws \<and>
   planMany cappedDraws init = [13 / 10, 8 / 5, 19 / 10, 21 / 10, 21 / 10, 31 / 10, 51 / 10] \<and>
   11 / 10 \<le> planMany cappedDraws init ! 0 \<and>
   planMany cappedDraws init ! 2 < planMany cappedDraws init ! 3 \<and>
   planMany cappedDraws init ! 3 \<le> planMany cappedDraws init ! 4 \<and>
   planMany cappedDraws init ! 4 + 1 \<le> planMany cappedDraws init ! 5"
proof -
  have h: "list_all unit_draw cappedDraws" "nextIndex init = 1" "length cappedDraws = 7"
    by (simp_all add: cappedDraws_def unit_draw_def init_def)
  have v: "planMany cappedDraws init = [13 / 10, 8 / 5, 19 / 10, 21 / 10, 21 / 10, 31 / 10, 51 / 10]"
    by (simp add: cappedDraws_def init_def planMany_Cons planValue_def rand_def
        toFixed2_def Let_def)
  have "planMany cappedDraws init ! 2 < 21 / 10" by (simp add: v)
  with multiplier_sequence [OF h(1,2), of 0] multiplier_sequence [OF h(1,2), of 3]
    multiplier_sequence [OF h(1,2), of 4] multiplier_sequence [OF h(1,2), of 5] h
  have "11 / 10 \<le> planMany cappedDraws init ! 0 \<and>
   planMany cappedDraws init ! 2 < planMany cappedDraws init ! 3 \<and>
   planMany cappedDraws init ! 3 \<le> planMany cappedDraws init ! 4 \<and>
   planMany cappedDraws init ! 4 + 1 \<le> planMany cappedDraws init ! 5"
    by simp
  with h v show ?thesis by simp
qed

text \<open>
  Claim C2 as stated fails: once the cap 2.10 is reached at the fourth call, the fifth
  value is 2.10 again and not strictly greater.
\<close>

theorem multiplier_sequence_counterexample:
  "list_all unit_draw cappedDraws \<and> nextIndex init = 1 \<and> plannedMult init = 1 \<and>
   planMany cappedDraws init ! 3 = 21 / 10 \<and> planMany cappedDraws init ! 4 = 21 / 10 \<and>
   \<not> (planMany cappedDraws init ! 3 < planMany cappedDraws init ! 4)"
  by (simp add: cappedDraws_def init_def planMany_Cons planValue_def rand_def
      toFixed2_def Let_def unit_draw_def)

text \<open>
  Claim C9. Along every run the balance is at least 0, and a step changes it in one of
  three ways only: the completion callback of \<open>startRound\<close> deducts the stake when the
  player has joined, the stake being at least 1 and at most the balance held then; a
  cash-out adds \<open>activeBetRef.current * collectedRef.current\<close>; a frame that ends in the
  lifeboat adds \<open>activeBet * collected\<close> when the player has not cashed out.
\<close>

theorem balance_ledger:
  assumes "wf_trace L init es" and "s = run L es init" and "wf_event s ev"
  shows "0 \<le> balance s \<and> 0 \<le> balance (step L ev s) \<and>
    (balance (step L ev s) = balance s \<or>
     (\<exists>e stake rest. ev = AnimDone e \<and> pendingStart s = stake # rest \<and> joined s \<and>
        phase s = Betting \<and> phase (step L ev s) = Running \<and>
        1 \<le> stake \<and> stake \<le> balance s \<and> balance (step L ev s) = balance s - stake) \<or>
     (ev = CashOut \<and> 0 \<le> activeBetRefCurrent s * collectedRef s \<and>
        balance (step L ev s) = balance s + activeBetRefCurrent s * collectedRef s) \<or>
     (\<exists>e. ev = Frame e \<and> phase s = Running \<and> phase (step L ev s) = Lifeboat \<and>
        \<not> hasCashed s \<and> 0 \<le> activeBetRef s * collected s \<and>
        balance (step L ev s) = balance s + activeBetRef s * collected s))"
proof -
  have i: "seqInv s \<and> ledgerInv s"
    unfolding assms(2) using invs_init assms(1) by (rule invs_run)
  from invs_step [OF i assms(3)] have "ledgerInv (step L ev s)" by blast
  then have "0 \<le> balance (step L ev s)" by (simp add: ledgerInv_def)
  moreover have "0 \<le> balance s" using i by (simp add: ledgerInv_def)
  ultimately show ?thesis
    using balance_step [of s ev L] i assms(3) by blast
qed

theorem balance_ledger_witness:
  "wf_trace L0 init betPlaced \<and> wf_event (run L0 betPlaced init) (AnimDone startEnv0) \<and>
   pendingStart (run L0 betPlaced init) = [10] \<and> joined (run L0 betPlaced init) \<and>
   balance (run L0 betPlaced init) = 1000 \<and>
   balance (step L0 (AnimDone startEnv0) (run L0 betPlaced init)) = 990 \<and>
   wf_trace L0 init roundTrace \<and> wf_event (run L0 roundTrace init) (Frame luckyTick) \<and>
   0 \<le> balance (run L0 roundTrace init) \<and>
   balance (step L0 (Frame luckyTick) (run L0 roundTrace init)) = 1002 \<and>
   wf_event (run L0 roundTrace init) CashOut \<and>
   balance (step L0 CashOut (run L0 roundTrace init)) = 1002"
proof -
  have w1: "wf_trace L0 init betPlaced"
    by (simp add: betPlaced_def eval_defs betMirrored_def)
  have s1: "pendingStart (run L0 betPlaced init) = [10]" "joined (run L0 betPlaced init)"
    "balance (run L0 betPlaced init) = 1000" "betMirrored (run L0 betPlaced init)"
    by (simp_all add: betPlaced_def eval_defs betMirrored_def)
  have e1: "wf_event (run L0 betPlaced init) (AnimDone startEnv0)"
    using s1(4) by (simp add: startEnv0_def unit_draw_def)
  have e2: "wf_event preCrash (Frame luckyTick)" "wf_event preCrash CashOut"
    by (simp_all add: preCrash_def luckyTick_def unit_draw_def)
  have v: "balance (step L0 (Frame luckyTick) preCrash) = 1002"
    "balance (step L0 CashOut preCrash) = 1002"
    by (simp_all add: preCrash_def luckyTick_def loop_char frame_defs eval_defs cashOutNow_char)
  note a = balance_ledger [OF w1 refl e1]
  note b = balance_ledger [OF roundTrace_wf refl, unfolded preCrash_reached, OF e2(1)]
  note c = balance_ledger [OF roundTrace_wf refl, unfolded preCrash_reached, OF e2(2)]
  have v1: "balance (step L0 (AnimDone startEnv0) (run L0 betPlaced init)) = 990"
    by (simp add: betPlaced_def eval_defs)
  have "0 \<le> balance (step L0 (AnimDone startEnv0) (run L0 betPlaced init))" using a by blast
  moreover have "0 \<le> balance preCrash" using b by blast
  moreover have "0 \<le> balance (step L0 CashOut preCrash)" using c by blast
  ultimately show ?thesis
    using w1 e1 s1 roundTrace_wf e2 v v1 by (simp add: preCrash_reached)
qed



text \<open>
  C5. In every state that the engine reaches from its initial state, at most two obstacles
  are idle. Inside a frame, whether the collision loop found nothing (the list is the
  committed one) or resolved a safe hit on \<open>ob\<close> (the list has \<open>ob\<close> marked as breaking), the
  list has at most two idle obstacles after the replacement path and after the cadence
  path, and one of the two paths has left its input as it was: they never both spawn in
  one tick. So a frame adds at most one obstacle and plans at most one multiplier.
\<close>

theorem idle_at_most_two:
  "idleCount (obstacles (run L es init)) \<le> 2 \<and>
   (let ls0 = (\<lparr>updated = obstacles (run L es init), needCommit = False,
                 spawnedThisFrame = False\<rparr>, s);
        ls1 = replacementSpawn L e False ls0;
        ls2 = cadenceSpawns L e (idleCount (updated (fst ls1))) ls1
    in idleCount (updated (fst ls1)) \<le> 2 \<and> idleCount (updated (fst ls2)) \<le> 2 \<and>
       (ls1 = ls0 \<or> ls2 = ls1)) \<and>
   (let ls0 = (\<lparr>updated = markBreaking ob (obstacles (run L es init)), needCommit = True,
                 spawnedThisFrame = False\<rparr>, s);
        ls1 = replacementSpawn L e True ls0;
        ls2 = cadenceSpawns L e (idleCount (updated (fst ls1))) ls1
    in idleCount (updated (fst ls1)) \<le> 2 \<and> idleCount (updated (fst ls2)) \<le> 2 \<and>
       (ls1 = ls0 \<or> ls2 = ls1)) \<and>
   idleCount (obstacles (step L (Frame e) (run L es init))) \<le> 2 \<and>
   length (obstacles (step L (Frame e) (run L es init))) \<le> length (obstacles (run L es init)) + 1 \<and>
   nextIndex (step L (Frame e) (run L es init)) \<le> nextIndex (run L es init) + 1"
proof -
  have i0: "idleCount (obstacles init) \<le> 2"
    by (simp add: init_def idleCount_def)
  have a: "idleCount (obstacles (run L es init)) \<le> 2"
    by (rule idle_run [OF i0])
  have m: "idleCount (markBreaking ob (obstacles (run L es init))) \<le> 2"
    using idleCount_markBreaking [of ob "obstacles (run L es init)"] a by linarith
  have b: "idleCount (obstacles (step L (Frame e) (run L es init))) \<le> 2"
    by (rule idle_step [OF a])
  show ?thesis
    unfolding Let_def
    using a b idle_spawns [OF a, of L e False False s] idle_spawns [OF m, of L e True True s]
      one_spawn_path [of L e False "obstacles (run L es init)" False s]
      one_spawn_path [of L e True "markBreaking ob (obstacles (run L es init))" True s]
      one_obstacle_per_frame [of L e "run L es init"] one_plan_per_frame [of L e "run L es init"]
    by simp
qed

theorem idle_at_most_two_witness:
  "idleCount (obstacles (run L0 (warmup @ frames 0 40) init)) = 2 \<and>
   collide L0 2000 (scroll (advance 2000 preHit)) (obstacles preHit) = SafeHit (hd (obstacles preHit)) \<and>
   idleCount (markBreaking (hd (obstacles preHit)) (obstacles preHit)) = 1 \<and>
   idleCount (updated (fst (replacementSpawn L0 (tickEnv 2000) True
      (\<lparr>updated = markBreaking (hd (obstacles preHit)) (obstacles preHit), needCommit = True,
         spawnedThisFrame = False\<rparr>,
       safeHitEffects (hd (obstacles preHit)) (advance 2000 preHit))))) = 2 \<and>
   idleCount (obstacles (step L0 (Frame (tickEnv 2000)) preHit)) = 2 \<and>
   length (obstacles (step L0 (Frame (tickEnv 2000)) preHit)) = 3 \<and>
   nextIndex (step L0 (Frame (tickEnv 2000)) preHit) = 4"
  using idle_at_most_two [where L = L0 and es = "warmup @ frames 0 40" and e = "tickEnv 2000"
      and s = "safeHitEffects (hd (obstacles preHit)) (advance 2000 preHit)"
      and ob = "hd (obstacles preHit)"]
  apply (simp only: preHit_reached)
  apply (simp add: preHit_def loop_char frame_defs eval_defs replacementSpawn_def spawnInto_char
      cadenceSpawns_once)
  done

text \<open>
  C8. Along every run, the collected multiplier is at least 1 before and after each step,
  and a step taken while the phase is running does not lower it. The completion callback
  of \<open>startRound\<close> resets it to 1 as the round starts, and a frame of a running round whose
  collision loop resolves a safe hit on \<open>ob\<close> sets it to the multiplier planned for \<open>ob\<close>.
  These are the only changes: every step leaves the collected multiplier as it was, or is
  that reset, or is such a frame, where \<open>ob\<close> is an idle obstacle of the committed list that
  is not an iceberg and overlaps the ship, and its multiplier is not below the collected
  one.
\<close>

theorem collected_monotone:
  assumes "wf_trace L init es" and "s = run L es init" and "wf_event s ev"
  shows "1 \<le> collected s \<and> 1 \<le> collected (step L ev s) \<and>
    (phase s = Running \<longrightarrow> collected s \<le> collected (step L ev s)) \<and>
    (\<forall>e stake rest. ev = AnimDone e \<and> pendingStart s = stake # rest \<longrightarrow>
       phase (step L ev s) = Running \<and> collected (step L ev s) = 1) \<and>
    (\<forall>e ob. ev = Frame e \<and> phase s = Running \<and>
       collide L (t_ts e) (scroll (advance (t_ts e) s)) (obstacles s) = SafeHit ob \<longrightarrow>
       collected (step L ev s) = ob_multiplier ob) \<and>
    (collected (step L ev s) = collected s \<or>
     (\<exists>e stake rest. ev = AnimDone e \<and> pendingStart s = stake # rest \<and> phase s = Betting \<and>
        phase (step L ev s) = Running \<and> collected (step L ev s) = 1) \<or>
     (\<exists>e ob. ev = Frame e \<and> phase s = Running \<and> phase (step L ev s) = Running \<and>
        collide L (t_ts e) (scroll (advance (t_ts e) s)) (obstacles s) = SafeHit ob \<and>
        ob \<in> set (obstacles s) \<and> \<not> ob_iceberg ob \<and> ob_state ob = ObIdle \<and>
        contact L (scroll (advance (t_ts e) s)) ob \<and>
        collected s \<le> ob_multiplier ob \<and> collected (step L ev s) = ob_multiplier ob))"
proof -
  have i0: "orderInv L init \<and> seqInv init \<and> ledgerInv init"
    using orderInv_init invs_init by simp
  from order_run [OF i0 assms(1)] assms(2)
  have i: "orderInv L s" "seqInv s" "ledgerInv s" by simp_all
  have q: "seqInv (step L ev s)"
    by (rule seqInv_step [OF i(2) assms(3)])
  note c = collected_step [OF i(1,3) assms(3)]
  have a: "1 \<le> collected s" "1 \<le> collected (step L ev s)"
    using i(2) q by (simp_all add: seqInv_def)
  have m: "phase s = Running \<longrightarrow> collected s \<le> collected (step L ev s)"
    using c by auto
  have r: "\<forall>e stake rest. ev = AnimDone e \<and> pendingStart s = stake # rest \<longrightarrow>
       phase (step L ev s) = Running \<and> collected (step L ev s) = 1"
    by (auto simp: animDone_def beginRound_def Let_def planNextMultiplier_def)
  have h: "\<forall>e ob. ev = Frame e \<and> phase s = Running \<and>
       collide L (t_ts e) (scroll (advance (t_ts e) s)) (obstacles s) = SafeHit ob \<longrightarrow>
       collected (step L ev s) = ob_multiplier ob"
    by (auto simp: loop_char)
  from a m r h c show ?thesis by blast
qed

theorem collected_monotone_witness:
  "wf_trace L0 init (warmup @ frames 0 40) \<and> wf_event preHit (Frame (tickEnv 2000)) \<and>
   phase preHit = Running \<and> collected preHit = 1 \<and>
   collide L0 2000 (scroll (advance 2000 preHit)) (obstacles preHit) = SafeHit (hd (obstacles preHit)) \<and>
   ob_multiplier (hd (obstacles preHit)) = 6 / 5 \<and>
   collected (step L0 (Frame (tickEnv 2000)) preHit) = 6 / 5 \<and>
   wf_trace L0 init roundTrace \<and> wf_event preCrash (Frame (tickEnv 4000)) \<and>
   phase preCrash = Running \<and> collected preCrash = 6 / 5 \<and>
   collected (step L0 (Frame (tickEnv 4000)) preCrash) = 6 / 5"
proof -
  have e1: "wf_event preHit (Frame (tickEnv 2000))"
    by (simp add: preHit_def tickEnv_def unit_draw_def)
  have e2: "wf_event preCrash (Frame (tickEnv 4000))"
    by (simp add: preCrash_def tickEnv_def unit_draw_def)
  note a = collected_monotone [OF preHit_wf refl, unfolded preHit_reached, OF e1]
  note b = collected_monotone [OF roundTrace_wf refl, unfolded preCrash_reached, OF e2]
  have v: "phase preHit = Running" "collected preHit = 1"
    "collide L0 2000 (scroll (advance 2000 preHit)) (obstacles preHit) = SafeHit (hd (obstacles preHit))"
    "ob_multiplier (hd (obstacles preHit)) = 6 / 5"
    "phase preCrash = Running" "collected preCrash = 6 / 5"
    "collected (step L0 (Frame (tickEnv 4000)) preCrash) = 6 / 5"
    by (simp_all add: preHit_def preCrash_def loop_char frame_defs eval_defs)
  have "collected (step L0 (Frame (tickEnv 2000)) preHit) = ob_multiplier (hd (obstacles preHit))"
    using a v(1,3) by (simp add: tickEnv_def)
  moreover have "collected preCrash \<le> collected (step L0 (Frame (tickEnv 4000)) preCrash)"
    using b v(5) by blast
  ultimately show ?thesis
    using preHit_wf roundTrace_wf e1 e2 v by simp
qed



end
